theory Spec2Isabelle
  imports Complex_Main "HOL-Library.Word" "HOL-Library.FSet"
begin

section \<open>SecureVote: blind-signature credentials and the anonymous ballot ledger\<close>

text \<open>
  A shallow embedding of \<^verbatim>\<open>blockchain/blockchain.py\<close>, \<^verbatim>\<open>backend/blind_signature.py\<close>,
  \<^verbatim>\<open>backend/database.py\<close>, \<^verbatim>\<open>backend/voter_registry.py\<close> and the two request handlers
  \<^verbatim>\<open>api_register\<close> and \<^verbatim>\<open>api_vote\<close> of \<^verbatim>\<open>backend/api.py\<close>.

  Python's unbounded integers are \<open>int\<close>, \<^verbatim>\<open>bytes\<close> are lists of 8-bit words, \<^verbatim>\<open>str\<close> is
  \<open>string\<close> (code points below 256), a \<^verbatim>\<open>float\<close> timestamp is a \<open>real\<close> that is only stored
  and never computed with. The lock of the ledger is not modelled: every operation is one
  atomic step on the state.
\<close>

subsection \<open>Library functions the repository calls\<close>

type_synonym byte = "8 word"

type_synonym bytes = "byte list"

datatype vval = VStr string | VFloat real

text \<open>A vote record is a Python dict with string keys; \<^verbatim>\<open>vote.get(k)\<close> is the lookup.\<close>

type_synonym vote = "string \<rightharpoonup> vval"

text \<open>The dict \<^verbatim>\<open>_compute_hash\<close> serialises: index, timestamp, votes, previous_hash, nonce.\<close>

type_synonym block_content = "int \<times> real \<times> vote list \<times> string \<times> int"

text \<open>
  The functions of the Python standard library and of PyCryptodome that the code calls and
  whose bodies are not part of the repository are parameters of the model:
  \<^verbatim>\<open>SHA256.new(x).digest()\<close> (the same function as \<^verbatim>\<open>hashlib.sha256(x).digest()\<close>),
  \<^verbatim>\<open>json.dumps(d, sort_keys=True)\<close> on the dict of \<^verbatim>\<open>_compute_hash\<close>,
  \<^verbatim>\<open>base64.b64decode\<close> and \<^verbatim>\<open>bytes.fromhex\<close> (\<open>None\<close> when they raise) and
  \<^verbatim>\<open>base64.b64encode(x).decode()\<close>.
\<close>

record pylib =
  sha256 :: "bytes \<Rightarrow> bytes"
  json_dumps :: "block_content \<Rightarrow> string"
  b64decode :: "string \<Rightarrow> bytes option"
  b64encode :: "bytes \<Rightarrow> string"
  bytes_fromhex :: "string \<Rightarrow> bytes option"

datatype py_error = IndexError | ValueError | ZeroDivisionError | OverflowError | RuntimeError

definition hex_digit :: "nat \<Rightarrow> char" where
  "hex_digit k = ''0123456789abcdef'' ! (k mod 16)"

text \<open>\<^verbatim>\<open>.hexdigest()\<close>: two lowercase hex digits for every byte of the digest.\<close>

definition hexdigest :: "bytes \<Rightarrow> string" where
  "hexdigest bs = concat (map (\<lambda>b. [hex_digit (unat b div 16), hex_digit (unat b mod 16)]) bs)"

text \<open>\<^verbatim>\<open>str.encode()\<close> on the ASCII text that \<^verbatim>\<open>json.dumps\<close> produces.\<close>

definition encode :: "string \<Rightarrow> bytes" where
  "encode s = map (\<lambda>c. of_nat (of_char c)) s"

definition startswith :: "string \<Rightarrow> string \<Rightarrow> bool" where
  "startswith s p = (take (length p) s = p)"

subsection \<open>Blocks\<close>

record block =
  index :: int
  timestamp :: real
  votes :: "vote list"
  previous_hash :: string
  nonce :: int
  hash :: string

definition compute_hash :: "pylib \<Rightarrow> block \<Rightarrow> string" where
  "compute_hash L b =
     hexdigest (sha256 L (encode (json_dumps L
       (index b, timestamp b, votes b, previous_hash b, nonce b))))"

text \<open>\<^verbatim>\<open>Block.__init__\<close>: stores the five fields and computes the hash from them.\<close>

definition Block_init :: "pylib \<Rightarrow> int \<Rightarrow> real \<Rightarrow> vote list \<Rightarrow> string \<Rightarrow> int \<Rightarrow> block" where
  "Block_init L i ts vs ph nc =
     (let b = \<lparr>index = i, timestamp = ts, votes = vs, previous_hash = ph, nonce = nc,
                hash = []\<rparr>
      in b\<lparr>hash := compute_hash L b\<rparr>)"

text \<open>The dict of \<^verbatim>\<open>to_dict\<close>, which is also the shape of a block in the chain file.\<close>

record block_dict =
  d_index :: int
  d_timestamp :: real
  d_votes :: "vote list"
  d_previous_hash :: string
  d_nonce :: int
  d_hash :: string

definition to_dict :: "block \<Rightarrow> block_dict" where
  "to_dict b =
     \<lparr>d_index = index b, d_timestamp = timestamp b, d_votes = votes b,
      d_previous_hash = previous_hash b, d_nonce = nonce b, d_hash = hash b\<rparr>"

text \<open>\<^verbatim>\<open>from_dict\<close>: the constructor computes a hash, the stored one then replaces it.\<close>

definition from_dict :: "pylib \<Rightarrow> block_dict \<Rightarrow> block" where
  "from_dict L d =
     (let b = Block_init L (d_index d) (d_timestamp d) (d_votes d) (d_previous_hash d) (d_nonce d)
      in b\<lparr>hash := d_hash d\<rparr>)"

subsection \<open>The ledger\<close>

definition CANDIDATES :: "string list" where
  "CANDIDATES = [''Candidate A'', ''Candidate B'', ''Candidate C'']"

definition DIFFICULTY :: nat where
  "DIFFICULTY = 2"

record ledger =
  chain :: "block list"
  pending_votes :: "vote list"
  spent_tokens :: "string fset"

text \<open>
  \<^verbatim>\<open>_is_valid\<close>: the loop \<^verbatim>\<open>for i in range(1, len(self.chain))\<close>, started at \<open>i = 1\<close>,
  with its two early returns.
\<close>

function is_valid_from :: "pylib \<Rightarrow> block list \<Rightarrow> nat \<Rightarrow> bool" where
  "is_valid_from L ch i =
     (if i < length ch then
        (let current = ch ! i; previous = ch ! (i - 1) in
         if hash current \<noteq> compute_hash L current then False
         else if previous_hash current \<noteq> hash previous then False
         else is_valid_from L ch (i + 1))
      else True)"
  by pat_completeness auto
termination
  by (relation "measure (\<lambda>(L, ch, i). length ch - i)") auto

declare is_valid_from.simps [simp del]

definition is_valid :: "pylib \<Rightarrow> ledger \<Rightarrow> bool" where
  "is_valid L st = is_valid_from L (chain st) 1"

datatype verdict_message = Chain_integrity_verified | Chain_integrity_FAILED

record chain_report =
  valid :: bool
  report_block_count :: nat
  message :: verdict_message

definition verify_chain :: "pylib \<Rightarrow> ledger \<Rightarrow> chain_report" where
  "verify_chain L st =
     (let v = is_valid L st in
      \<lparr>valid = v, report_block_count = length (chain st),
       message = (if v then Chain_integrity_verified else Chain_integrity_FAILED)\<rparr>)"

text \<open>\<^verbatim>\<open>get_block\<close>: the guard \<^verbatim>\<open>0 <= index < len(self.chain)\<close>, else \<^verbatim>\<open>None\<close>.\<close>

definition get_block :: "ledger \<Rightarrow> int \<Rightarrow> block_dict option" where
  "get_block st i =
     (if 0 \<le> i \<and> i < int (length (chain st)) then Some (to_dict (chain st ! nat i)) else None)"

definition get_chain :: "ledger \<Rightarrow> block_dict list" where
  "get_chain st = map to_dict (chain st)"

text \<open>
  \<^verbatim>\<open>get_tallies\<close>: the body of the inner loop, then the two nested loops over
  \<^verbatim>\<open>self.chain[1:]\<close> and \<^verbatim>\<open>block.votes\<close>, started from \<^verbatim>\<open>{c: 0 for c in CANDIDATES}\<close>.
  A candidate that is missing (\<^verbatim>\<open>None\<close>) or a float is not a key of the tallies.
\<close>

definition tally_vote :: "vote \<Rightarrow> (string \<rightharpoonup> nat) \<Rightarrow> (string \<rightharpoonup> nat)" where
  "tally_vote v t =
     (case v ''candidate'' of
        Some (VStr c) \<Rightarrow> (case t c of Some k \<Rightarrow> t(c \<mapsto> k + 1) | None \<Rightarrow> t)
      | _ \<Rightarrow> t)"

definition get_tallies :: "ledger \<Rightarrow> (string \<rightharpoonup> nat)" where
  "get_tallies st =
     fold (\<lambda>b t. fold tally_vote (votes b) t) (drop 1 (chain st))
       (map_of (map (\<lambda>c. (c, 0)) CANDIDATES))"

record stats =
  block_count :: nat
  total_votes :: nat
  spent_count :: nat
  candidates :: "string list"

definition get_stats :: "ledger \<Rightarrow> stats" where
  "get_stats st =
     \<lparr>block_count = length (chain st),
      total_votes = sum_list (map (\<lambda>b. length (votes b)) (drop 1 (chain st))),
      spent_count = fcard (spent_tokens st),
      candidates = CANDIDATES\<rparr>"

subsection \<open>Loading the chain file\<close>

text \<open>
  The JSON document of \<^verbatim>\<open>_save\<close>: the blocks as dicts and the spent nullifiers; the key
  \<^verbatim>\<open>spent_tokens\<close> may be missing (\<^verbatim>\<open>data.get("spent_tokens", [])\<close>).
\<close>

record chain_document =
  doc_chain :: "block_dict list"
  doc_spent_tokens :: "string list option"

text \<open>
  Writing this document (\<^verbatim>\<open>_save\<close>) is not modelled: the state of the model is the state
  in memory, and the content of the file is an argument of \<^verbatim>\<open>load_or_init\<close>.
  What \<^verbatim>\<open>_load_or_init\<close> finds at \<^verbatim>\<open>CHAIN_FILE\<close>: no file, a file on which
  \<^verbatim>\<open>json.load\<close>, \<^verbatim>\<open>data["chain"]\<close> or \<^verbatim>\<open>Block.from_dict\<close> raises, or a document.
\<close>

datatype chain_file = NoFile | Unreadable | Document chain_document

definition genesis :: "pylib \<Rightarrow> real \<Rightarrow> block" where
  "genesis L now = Block_init L 0 now [] (replicate 64 (CHR ''0'')) 0"

text \<open>
  \<^verbatim>\<open>Blockchain.__init__\<close> followed by \<^verbatim>\<open>_load_or_init\<close>. A document whose chain fails
  \<^verbatim>\<open>_is_valid\<close> raises inside the \<^verbatim>\<open>try\<close> after both assignments, so the chain is
  replaced by a fresh genesis block while the loaded spent-set stays.
\<close>

definition load_or_init :: "pylib \<Rightarrow> chain_file \<Rightarrow> real \<Rightarrow> ledger" where
  "load_or_init L file now =
     (case file of
        Document d \<Rightarrow>
          (let st = \<lparr>chain = map (from_dict L) (doc_chain d), pending_votes = [],
                     spent_tokens =
                       fset_of_list (case doc_spent_tokens d of None \<Rightarrow> [] | Some l \<Rightarrow> l)\<rparr>
           in if is_valid L st then st else st\<lparr>chain := [genesis L now]\<rparr>)
      | _ \<Rightarrow> \<lparr>chain = [genesis L now], pending_votes = [], spent_tokens = {||}\<rparr>)"

subsection \<open>Casting a vote\<close>

text \<open>
  \<^verbatim>\<open>_proof_of_work\<close>: the \<^verbatim>\<open>while\<close> loop has no bound, so the model is a partial
  function and \<open>None\<close> stands for a search that never ends.
\<close>

definition pow_ok :: "block \<Rightarrow> bool" where
  "pow_ok b = startswith (hash b) (replicate DIFFICULTY (CHR ''0''))"

definition next_nonce :: "pylib \<Rightarrow> block \<Rightarrow> block" where
  "next_nonce L b = (let b1 = b\<lparr>nonce := nonce b + 1\<rparr> in b1\<lparr>hash := compute_hash L b1\<rparr>)"

partial_function (option) proof_of_work :: "pylib \<Rightarrow> block \<Rightarrow> block option" where
  "proof_of_work L b = (if pow_ok b then Some b else proof_of_work L (next_nonce L b))"

text \<open>
  The error kinds of the replies. The ledger's \<^verbatim>\<open>cast_vote\<close> answers
  \<^verbatim>\<open>"Invalid candidate. Choose from: ..."\<close> (\<open>InvalidChoice\<close>) and
  \<^verbatim>\<open>"Token already used ..."\<close> (\<open>DoubleVote\<close>); the other kinds are answers of the
  registry and of the request handlers.
\<close>

datatype error_kind =
  MissingFields | InvalidVoterId | NotEligible | AlreadyIssued | Uninitialized
  | MalformedInput | InvalidChoice | MalformedCredential | InvalidCredential | DoubleVote

datatype vote_reply = VoteSuccess string int | VoteFailure error_kind

text \<open>
  \<^verbatim>\<open>cast_vote\<close>, with the two readings of \<^verbatim>\<open>time.time()\<close> as arguments. The state is
  returned with the reply; an exception (\<^verbatim>\<open>self.chain[-1]\<close> on an empty chain) leaves the
  state as the statements before it made it.
\<close>

definition vote_record :: "string \<Rightarrow> string \<Rightarrow> real \<Rightarrow> string \<Rightarrow> vote" where
  "vote_record token_hash candidate now signature_hex =
     [''token_hash'' \<mapsto> VStr token_hash, ''candidate'' \<mapsto> VStr candidate,
      ''timestamp'' \<mapsto> VFloat now, ''signature'' \<mapsto> VStr signature_hex]"

definition cast_vote ::
  "pylib \<Rightarrow> ledger \<Rightarrow> string \<Rightarrow> string \<Rightarrow> string \<Rightarrow> real \<Rightarrow> real
     \<Rightarrow> ((py_error + vote_reply) \<times> ledger) option" where
  "cast_vote L st token_hash candidate signature_hex t1 t2 =
     (if candidate \<notin> set CANDIDATES then Some (Inr (VoteFailure InvalidChoice), st)
      else if token_hash |\<in>| spent_tokens st then Some (Inr (VoteFailure DoubleVote), st)
      else
        (let st1 = st\<lparr>spent_tokens := finsert token_hash (spent_tokens st)\<rparr>;
             v = vote_record token_hash candidate t1 signature_hex;
             st2 = st1\<lparr>pending_votes := pending_votes st1 @ [v]\<rparr>
         in if chain st2 = [] then Some (Inl IndexError, st2)
            else
              (case proof_of_work L
                      (Block_init L (int (length (chain st2))) t2 [v] (hash (last (chain st2))) 0) of
                 None \<Rightarrow> None
               | Some b \<Rightarrow>
                   Some (Inr (VoteSuccess (hash b) (index b)),
                         st2\<lparr>chain := chain st2 @ [b], pending_votes := []\<rparr>))))"

definition is_token_spent :: "ledger \<Rightarrow> string \<Rightarrow> bool" where
  "is_token_spent st token_hash = (token_hash |\<in>| spent_tokens st)"

subsection \<open>Integers, bytes and modular arithmetic of Python\<close>

text \<open>\<^verbatim>\<open>int.from_bytes(bs, "big")\<close>.\<close>

definition from_bytes :: "bytes \<Rightarrow> int" where
  "from_bytes bs = foldl (\<lambda>acc b. acc * 256 + uint b) 0 bs"

text \<open>\<^verbatim>\<open>int.bit_length()\<close>: the number of bits of the absolute value.\<close>

fun bit_length_nat :: "nat \<Rightarrow> nat" where
  "bit_length_nat k = (if k = 0 then 0 else Suc (bit_length_nat (k div 2)))"

declare bit_length_nat.simps [simp del]

definition bit_length :: "int \<Rightarrow> nat" where
  "bit_length x = bit_length_nat (nat \<bar>x\<bar>)"

text \<open>
  \<^verbatim>\<open>x.to_bytes(k, "big")\<close>: \<^verbatim>\<open>OverflowError\<close> for a negative \<open>x\<close> and for one that does
  not fit into \<open>k\<close> bytes.
\<close>

definition to_bytes :: "int \<Rightarrow> nat \<Rightarrow> py_error + bytes" where
  "to_bytes x k =
     (if x < 0 \<or> 256 ^ k \<le> x then Inl OverflowError
      else Inr (map (\<lambda>i. word_of_int (x div 256 ^ (k - 1 - i))) [0..<k]))"

text \<open>\<^verbatim>\<open>a % n\<close>: the sign of the result is the divisor's, as for \<open>mod\<close> on \<open>int\<close>.\<close>

definition py_mod :: "int \<Rightarrow> int \<Rightarrow> py_error + int" where
  "py_mod a n = (if n = 0 then Inl ZeroDivisionError else Inr (a mod n))"

text \<open>
  The inverse that \<^verbatim>\<open>pow(a, -1, m)\<close> finds: the \<open>x\<close> of \<open>[0, |m|)\<close> with
  \<open>a * x \<equiv> 1 (mod |m|)\<close>, if there is one.
\<close>

definition modinv :: "int \<Rightarrow> int \<Rightarrow> int option" where
  "modinv a m = find (\<lambda>x. (a * x) mod \<bar>m\<bar> = 1 mod \<bar>m\<bar>) [0..\<bar>m\<bar> - 1]"

text \<open>
  \<^verbatim>\<open>pow(b, ex, m)\<close> with three arguments: \<^verbatim>\<open>ValueError\<close> for \<open>m = 0\<close> and, when the
  exponent is negative, for a base that is not invertible modulo \<open>m\<close>.
\<close>

definition py_pow3 :: "int \<Rightarrow> int \<Rightarrow> int \<Rightarrow> py_error + int" where
  "py_pow3 b ex m =
     (if m = 0 then Inl ValueError
      else if 0 \<le> ex then Inr (b ^ nat ex mod m)
      else (case modinv b m of
              None \<Rightarrow> Inl ValueError
            | Some inv_b \<Rightarrow> Inr (inv_b ^ nat (- ex) mod m)))"

subsection \<open>RSA blind signatures\<close>

text \<open>
  A key as \<^verbatim>\<open>RSA.import_key\<close> returns it; of the private key the code reads \<open>n\<close> and
  \<open>d\<close>, of the public key \<open>n\<close> and \<open>e\<close>. The PEM text and its parsing are not modelled.
\<close>

record rsa_public =
  pub_n :: int
  pub_e :: int

record rsa_private =
  priv_n :: int
  priv_d :: int

definition KEY_SIZE :: nat where
  "KEY_SIZE = 2048"

text \<open>
  The loop of \<^verbatim>\<open>blind_token\<close> that draws the blinding factor. The successive results of
  \<^verbatim>\<open>os.urandom(KEY_SIZE // 8)\<close> are the list \<open>draws\<close>; \<open>None\<close> means that every draw
  supplied was rejected and the loop is still running.
\<close>

fun choose_r :: "int \<Rightarrow> bytes list \<Rightarrow> int option" where
  "choose_r n [] = None"
| "choose_r n (x # draws) =
     (let r = from_bytes x mod n in
      if r > 1 \<and> py_pow3 r 1 n \<noteq> Inr 0 then Some r else choose_r n draws)"

definition blind_token :: "pylib \<Rightarrow> bytes \<Rightarrow> rsa_public \<Rightarrow> bytes list \<Rightarrow> (py_error + bytes \<times> int) option" where
  "blind_token L token pub draws =
     (let n = pub_n pub; e = pub_e pub in
      case py_mod (from_bytes (sha256 L token)) n of
        Inl err \<Rightarrow> Some (Inl err)
      | Inr m \<Rightarrow>
          (case choose_r n draws of
             None \<Rightarrow> None
           | Some r \<Rightarrow>
               (case py_pow3 r e n of
                  Inl err \<Rightarrow> Some (Inl err)
                | Inr r_e \<Rightarrow>
                    (let blinded = (m * r_e) mod n in
                     case to_bytes blinded ((bit_length blinded + 7) div 8) of
                       Inl err \<Rightarrow> Some (Inl err)
                     | Inr blinded_bytes \<Rightarrow> Some (Inr (blinded_bytes, r))))))"

definition unblind_signature :: "int \<Rightarrow> int \<Rightarrow> rsa_public \<Rightarrow> py_error + int" where
  "unblind_signature blind_sig_int blinding_factor pub =
     (let n = pub_n pub in
      case py_pow3 blinding_factor (- 1) n of
        Inl err \<Rightarrow> Inl err
      | Inr r_inv \<Rightarrow> py_mod (blind_sig_int * r_inv) n)"

definition verify_signature :: "pylib \<Rightarrow> bytes \<Rightarrow> int \<Rightarrow> rsa_public \<Rightarrow> py_error + bool" where
  "verify_signature L token signature_int pub =
     (let n = pub_n pub; e = pub_e pub in
      case py_mod (from_bytes (sha256 L token)) n of
        Inl err \<Rightarrow> Inl err
      | Inr m \<Rightarrow>
          (case py_pow3 signature_int e n of
             Inl err \<Rightarrow> Inl err
           | Inr recovered \<Rightarrow> Inr (recovered = m)))"

definition blind_sign :: "bytes \<Rightarrow> rsa_private \<Rightarrow> py_error + int" where
  "blind_sign blinded_token_bytes priv =
     py_pow3 (from_bytes blinded_token_bytes) (priv_d priv) (priv_n priv)"

definition hex_to_token :: "pylib \<Rightarrow> string \<Rightarrow> bytes option" where
  "hex_to_token L hex_str = bytes_fromhex L hex_str"

definition int_to_b64 :: "pylib \<Rightarrow> int \<Rightarrow> py_error + string" where
  "int_to_b64 L n =
     (case to_bytes n ((bit_length n + 7) div 8) of
        Inl err \<Rightarrow> Inl err
      | Inr bs \<Rightarrow> Inr (b64encode L bs))"

definition b64_to_int :: "pylib \<Rightarrow> string \<Rightarrow> int option" where
  "b64_to_int L b64_str = map_option from_bytes (b64decode L b64_str)"

definition token_hash :: "pylib \<Rightarrow> bytes \<Rightarrow> string" where
  "token_hash L token = hexdigest (sha256 L token)"

subsection \<open>The voter registry database\<close>

text \<open>
  The three SQLite tables. \<^verbatim>\<open>eligible_voters\<close> is keyed by \<^verbatim>\<open>voter_id\<close> (its column
  \<^verbatim>\<open>name\<close> is never written), \<^verbatim>\<open>voters\<close> is keyed by \<^verbatim>\<open>voter_id\<close> and
  \<^verbatim>\<open>issuer_keys\<close> has at most the one row \<^verbatim>\<open>id = 1\<close>. The value of
  \<^verbatim>\<open>datetime('now')\<close> is an argument of the statements that use it.
\<close>

record voter_row =
  registered_at :: string
  token_issued :: int
  token_issued_at :: "string option"

record registry =
  eligible_voters :: "string fset"
  voters :: "string \<rightharpoonup> voter_row"
  issuer_keys :: "(rsa_private \<times> rsa_public) option"

text \<open>\<^verbatim>\<open>init_db\<close> on a new database file: the three tables, empty.\<close>

definition init_db :: registry where
  "init_db = \<lparr>eligible_voters = {||}, voters = Map.empty, issuer_keys = None\<rparr>"

text \<open>\<^verbatim>\<open>INSERT OR IGNORE INTO eligible_voters\<close> for every id of the list.\<close>

definition seed_eligible_voters :: "registry \<Rightarrow> string list \<Rightarrow> registry" where
  "seed_eligible_voters db voter_ids =
     db\<lparr>eligible_voters := eligible_voters db |\<union>| fset_of_list voter_ids\<rparr>"

definition is_eligible :: "registry \<Rightarrow> string \<Rightarrow> bool" where
  "is_eligible db voter_id = (voter_id |\<in>| eligible_voters db)"

definition has_token_issued :: "registry \<Rightarrow> string \<Rightarrow> bool" where
  "has_token_issued db voter_id =
     (case voters db voter_id of None \<Rightarrow> False | Some row \<Rightarrow> token_issued row \<noteq> 0)"

text \<open>
  \<^verbatim>\<open>register_voter\<close>: the insert, and on a conflict the update guarded by
  \<^verbatim>\<open>WHERE token_issued=0\<close>.
\<close>

definition register_voter :: "registry \<Rightarrow> string \<Rightarrow> string \<Rightarrow> registry" where
  "register_voter db voter_id now =
     (case voters db voter_id of
        None \<Rightarrow>
          db\<lparr>voters := (voters db)(voter_id \<mapsto>
                \<lparr>registered_at = now, token_issued = 1, token_issued_at = Some now\<rparr>)\<rparr>
      | Some row \<Rightarrow>
          if token_issued row = 0
          then db\<lparr>voters := (voters db)(voter_id \<mapsto>
                     row\<lparr>token_issued := 1, token_issued_at := Some now\<rparr>)\<rparr>
          else db)"

record voter_status_record =
  status_voter_id :: string
  status_eligible :: bool
  status_registered :: bool
  status_token_issued :: bool
  status_registered_at :: "string option"
  status_token_issued_at :: "string option"

definition get_voter_status :: "registry \<Rightarrow> string \<Rightarrow> voter_status_record" where
  "get_voter_status db voter_id =
     (case voters db voter_id of
        None \<Rightarrow>
          \<lparr>status_voter_id = voter_id, status_eligible = is_eligible db voter_id,
           status_registered = False, status_token_issued = False,
           status_registered_at = None, status_token_issued_at = None\<rparr>
      | Some row \<Rightarrow>
          \<lparr>status_voter_id = voter_id, status_eligible = True, status_registered = True,
           status_token_issued = (token_issued row \<noteq> 0),
           status_registered_at = Some (registered_at row),
           status_token_issued_at = token_issued_at row\<rparr>)"

definition store_issuer_keys :: "registry \<Rightarrow> rsa_private \<Rightarrow> rsa_public \<Rightarrow> registry" where
  "store_issuer_keys db private_key public_key = db\<lparr>issuer_keys := Some (private_key, public_key)\<rparr>"

definition get_issuer_keys :: "registry \<Rightarrow> (rsa_private \<times> rsa_public) option" where
  "get_issuer_keys db = issuer_keys db"

subsection \<open>Token issuance\<close>

text \<open>
  \<^verbatim>\<open>bootstrap\<close>: \<open>generated\<close> is what \<^verbatim>\<open>generate_keypair()\<close> returns if it is called;
  the voters are seeded when the list is neither \<^verbatim>\<open>None\<close> nor empty.
\<close>

definition bootstrap ::
  "registry \<Rightarrow> rsa_private \<times> rsa_public \<Rightarrow> string list \<Rightarrow> rsa_public \<times> registry" where
  "bootstrap db generated demo_voter_ids =
     (let (db1, public_key) =
            (case get_issuer_keys db of
               None \<Rightarrow> (store_issuer_keys db (fst generated) (snd generated), snd generated)
             | Some (private_key, public_key) \<Rightarrow> (db, public_key));
          db2 = (if demo_voter_ids \<noteq> [] then seed_eligible_voters db1 demo_voter_ids else db1)
      in (public_key, db2))"

text \<open>\<^verbatim>\<open>get_public_key\<close>: \<^verbatim>\<open>RuntimeError\<close> when no key is stored.\<close>

definition get_public_key :: "registry \<Rightarrow> py_error + rsa_public" where
  "get_public_key db =
     (case get_issuer_keys db of None \<Rightarrow> Inl RuntimeError | Some (_, public_key) \<Rightarrow> Inr public_key)"

datatype issue_reply = IssueSuccess string | IssueFailure error_kind

text \<open>
  \<^verbatim>\<open>issue_blind_token\<close>. Its answers are \<^verbatim>\<open>"Voter ID not found in eligible voters list"\<close>
  (\<open>NotEligible\<close>), \<^verbatim>\<open>"Token already issued to this voter"\<close> (\<open>AlreadyIssued\<close>),
  \<^verbatim>\<open>"Issuer not initialized"\<close> (\<open>Uninitialized\<close>) and
  \<^verbatim>\<open>"Invalid base64 encoding for blinded token"\<close> (\<open>MalformedInput\<close>). An exception of
  \<^verbatim>\<open>blind_sign\<close> or \<^verbatim>\<open>int_to_b64\<close> is not caught; the database is then unchanged.
\<close>

definition issue_blind_token ::
  "pylib \<Rightarrow> registry \<Rightarrow> string \<Rightarrow> string \<Rightarrow> string \<Rightarrow> py_error + (issue_reply \<times> registry)" where
  "issue_blind_token L db voter_id blinded_token_b64 now =
     (if \<not> is_eligible db voter_id then Inr (IssueFailure NotEligible, db)
      else if has_token_issued db voter_id then Inr (IssueFailure AlreadyIssued, db)
      else
        (case get_issuer_keys db of
           None \<Rightarrow> Inr (IssueFailure Uninitialized, db)
         | Some (private_key, _) \<Rightarrow>
             (case b64decode L blinded_token_b64 of
                None \<Rightarrow> Inr (IssueFailure MalformedInput, db)
              | Some blinded_bytes \<Rightarrow>
                  (case blind_sign blinded_bytes private_key of
                     Inl err \<Rightarrow> Inl err
                   | Inr blind_sig_int \<Rightarrow>
                       (case int_to_b64 L blind_sig_int of
                          Inl err \<Rightarrow> Inl err
                        | Inr blind_sig_b64 \<Rightarrow>
                            Inr (IssueSuccess blind_sig_b64, register_voter db voter_id now))))))"

definition voter_status :: "registry \<Rightarrow> string \<Rightarrow> voter_status_record" where
  "voter_status db voter_id = get_voter_status db voter_id"

subsection \<open>The request handlers\<close>

text \<open>
  \<^verbatim>\<open>str.isalnum\<close> and \<^verbatim>\<open>str.isspace\<close> on the code points below 256, and
  \<^verbatim>\<open>str.strip()\<close>.
\<close>

definition isalnum :: "char \<Rightarrow> bool" where
  "isalnum c =
     (let k = (of_char c :: nat) in
      (48 \<le> k \<and> k \<le> 57) \<or> (65 \<le> k \<and> k \<le> 90) \<or> (97 \<le> k \<and> k \<le> 122)
      \<or> k = 170 \<or> k = 178 \<or> k = 179 \<or> k = 181 \<or> k = 185 \<or> k = 186
      \<or> (188 \<le> k \<and> k \<le> 190) \<or> (192 \<le> k \<and> k \<le> 214) \<or> (216 \<le> k \<and> k \<le> 246)
      \<or> 248 \<le> k)"

definition isspace :: "char \<Rightarrow> bool" where
  "isspace c =
     (let k = (of_char c :: nat) in
      (9 \<le> k \<and> k \<le> 13) \<or> (28 \<le> k \<and> k \<le> 32) \<or> k = 133 \<or> k = 160)"

definition strip :: "string \<Rightarrow> string" where
  "strip s = rev (dropWhile isspace (rev (dropWhile isspace s)))"

text \<open>
  The state of the application: the registry database and the ledger singleton.
\<close>

record app =
  app_registry :: registry
  app_ledger :: ledger

text \<open>
  \<^verbatim>\<open>api_register\<close>. The arguments are the two values
  \<^verbatim>\<open>str(data.get("voter_id", ""))\<close> and \<^verbatim>\<open>str(data.get("blinded_token_b64", ""))\<close>
  of the request; the result is the HTTP status with the JSON reply. The replies
  \<^verbatim>\<open>"voter_id and blinded_token_b64 are required"\<close> and \<^verbatim>\<open>"Invalid voter_id format"\<close> are
  \<open>MissingFields\<close> and \<open>InvalidVoterId\<close>.
\<close>

definition api_register ::
  "pylib \<Rightarrow> registry \<Rightarrow> string \<Rightarrow> string \<Rightarrow> string \<Rightarrow> py_error + ((nat \<times> issue_reply) \<times> registry)" where
  "api_register L db raw_voter_id raw_blinded now =
     (let voter_id = strip raw_voter_id; blinded_token_b64 = strip raw_blinded in
      if voter_id = [] \<or> blinded_token_b64 = [] then Inr ((400, IssueFailure MissingFields), db)
      else if \<not> list_all (\<lambda>c. isalnum c \<or> c = CHR ''_'') voter_id
      then Inr ((400, IssueFailure InvalidVoterId), db)
      else
        (case issue_blind_token L db voter_id blinded_token_b64 now of
           Inl err \<Rightarrow> Inl err
         | Inr (IssueSuccess sig, db') \<Rightarrow> Inr ((200, IssueSuccess sig), db')
         | Inr (IssueFailure e, db') \<Rightarrow> Inr ((400, IssueFailure e), db')))"

text \<open>
  \<^verbatim>\<open>api_vote\<close>. The three arguments are the values of \<^verbatim>\<open>token_hex\<close>,
  \<^verbatim>\<open>signature_b64\<close> and \<^verbatim>\<open>candidate\<close> of the request before \<^verbatim>\<open>strip\<close>; \<open>t1\<close> and
  \<open>t2\<close> are the clock readings of \<^verbatim>\<open>cast_vote\<close>. The \<^verbatim>\<open>try\<close> block turns a failure
  of \<^verbatim>\<open>hex_to_token\<close>, \<^verbatim>\<open>b64_to_int\<close> or \<^verbatim>\<open>get_public_key\<close> into the reply
  \<^verbatim>\<open>"Malformed credential"\<close>; an exception of \<^verbatim>\<open>verify_signature\<close> or of
  \<^verbatim>\<open>cast_vote\<close> is not caught. \<open>None\<close> is a proof-of-work search that never ends.
\<close>

definition api_vote ::
  "pylib \<Rightarrow> app \<Rightarrow> string \<Rightarrow> string \<Rightarrow> string \<Rightarrow> real \<Rightarrow> real
     \<Rightarrow> ((py_error + nat \<times> vote_reply) \<times> app) option" where
  "api_vote L st raw_token_hex raw_sig_b64 raw_candidate t1 t2 =
     (let token_hex = strip raw_token_hex; sig_b64 = strip raw_sig_b64;
          candidate = strip raw_candidate in
      if token_hex = [] \<or> sig_b64 = [] \<or> candidate = []
      then Some (Inr (400, VoteFailure MissingFields), st)
      else if candidate \<notin> set CANDIDATES then Some (Inr (400, VoteFailure InvalidChoice), st)
      else
        (case hex_to_token L token_hex of
           None \<Rightarrow> Some (Inr (400, VoteFailure MalformedCredential), st)
         | Some token_bytes \<Rightarrow>
             (case b64_to_int L sig_b64 of
                None \<Rightarrow> Some (Inr (400, VoteFailure MalformedCredential), st)
              | Some sig_int \<Rightarrow>
                  (case get_public_key (app_registry st) of
                     Inl err \<Rightarrow> Some (Inr (400, VoteFailure MalformedCredential), st)
                   | Inr pk \<Rightarrow>
                       (case verify_signature L token_bytes sig_int pk of
                          Inl err \<Rightarrow> Some (Inl err, st)
                        | Inr False \<Rightarrow> Some (Inr (403, VoteFailure InvalidCredential), st)
                        | Inr True \<Rightarrow>
                            (case cast_vote L (app_ledger st) (token_hash L token_bytes) candidate
                                    (take 64 sig_b64) t1 t2 of
                               None \<Rightarrow> None
                             | Some (Inl err, led) \<Rightarrow> Some (Inl err, st\<lparr>app_ledger := led\<rparr>)
                             | Some (Inr (VoteSuccess h i), led) \<Rightarrow>
                                 Some (Inr (200, VoteSuccess h i), st\<lparr>app_ledger := led\<rparr>)
                             | Some (Inr (VoteFailure e), led) \<Rightarrow>
                                 Some (Inr (400, VoteFailure e), st\<lparr>app_ledger := led\<rparr>)))))))"

subsection \<open>Notions used to state the properties\<close>

text \<open>The vote records in blocks 1 to the end of the chain, in chain order.\<close>

definition recorded_votes :: "ledger \<Rightarrow> vote list" where
  "recorded_votes st = concat (map votes (drop 1 (chain st)))"

text \<open>The number of vote records of a list whose choice is \<open>c\<close>.\<close>

definition count_choice :: "string \<Rightarrow> vote list \<Rightarrow> nat" where
  "count_choice c vs = length (filter (\<lambda>v. v ''candidate'' = Some (VStr c)) vs)"

text \<open>A vote record counts for the tallies when its candidate is a member of \<open>CANDIDATES\<close>.\<close>

definition counted :: "vote \<Rightarrow> bool" where
  "counted v = (case v ''candidate'' of Some (VStr c) \<Rightarrow> c \<in> set CANDIDATES | _ \<Rightarrow> False)"

text \<open>\<^verbatim>\<open>sum(tallies.values())\<close>.\<close>

definition tallies_total :: "(string \<rightharpoonup> nat) \<Rightarrow> nat" where
  "tallies_total t = (\<Sum>c\<in>dom t. the (t c))"

text \<open>
  A sequence of \<^verbatim>\<open>cast_vote\<close> calls, each with its token hash, candidate, signature
  excerpt and clock readings; \<open>None\<close> when one of them never returns.
\<close>

fun cast_votes :: "pylib \<Rightarrow> ledger \<Rightarrow> (string \<times> string \<times> string \<times> real \<times> real) list \<Rightarrow> ledger option" where
  "cast_votes L st [] = Some st"
| "cast_votes L st ((th, c, s, t1, t2) # reqs) =
     (case cast_vote L st th c s t1 t2 of
        None \<Rightarrow> None
      | Some (r, st') \<Rightarrow> cast_votes L st' reqs)"

subsection \<open>Sample values\<close>

text \<open>
  Concrete values on which the properties below are evaluated: stand-ins for the library
  functions (a digest of 32 bytes whose first byte is \<open>0xff\<close> for the empty input and
  \<open>0x00\<close> otherwise, a serialisation that writes one character per unit of the nonce),
  the block mined for the first vote on a fresh chain, and the ledger after that vote.
\<close>

definition sample_lib :: pylib where
  "sample_lib =
     \<lparr>sha256 = (\<lambda>bs. (if bs = [] then 255 else 0) # replicate 31 0),
      json_dumps = (\<lambda>(i, ts, vs, ph, nc). replicate (nat nc) (CHR ''n'')),
      b64decode = (\<lambda>s. Some (encode s)),
      b64encode = hexdigest,
      bytes_fromhex = (\<lambda>s. Some (encode s))\<rparr>"

definition sample_block :: block where
  "sample_block =
     next_nonce sample_lib
       (Block_init sample_lib 1 2 [vote_record ''ab'' ''Candidate A'' 1 ''sig'']
          (hash (genesis sample_lib 0)) 0)"

definition sample_ledger :: ledger where
  "sample_ledger =
     \<lparr>chain = [genesis sample_lib 0, sample_block], pending_votes = [],
      spent_tokens = {|''ab''|}\<rparr>"

text \<open>The sample ledger with the nonce of its second block set back to 0.\<close>

definition tampered_ledger :: ledger where
  "tampered_ledger =
     sample_ledger\<lparr>chain :=
       [genesis sample_lib 0,
        sample_block\<lparr>nonce := 0\<rparr>]\<rparr>"

text \<open>
  A chain file whose second block holds a vote record for a name that is not a candidate;
  the block is built by the constructor, so the chain passes \<^verbatim>\<open>_is_valid\<close>.
\<close>

definition stray_vote :: vote where
  "stray_vote = [''token_hash'' \<mapsto> VStr ''cd'', ''candidate'' \<mapsto> VStr ''Mallory'']"

definition stray_document :: "pylib \<Rightarrow> chain_document" where
  "stray_document L =
     \<lparr>doc_chain =
        [to_dict (genesis L 0), to_dict (Block_init L 1 0 [stray_vote] (hash (genesis L 0)) 0)],
      doc_spent_tokens = Some [''cd'']\<rparr>"

text \<open>
  A chain file with a single block of index 0 whose stored hash starts with \<open>ff\<close>.
\<close>

definition unmined_document :: chain_document where
  "unmined_document =
     \<lparr>doc_chain =
        [\<lparr>d_index = 0, d_timestamp = 0, d_votes = [],
          d_previous_hash = replicate 64 (CHR ''0''), d_nonce = 0,
          d_hash = ''ff00000000000000000000000000000000000000000000000000000000000000''\<rparr>],
      doc_spent_tokens = Some []\<rparr>"

text \<open>
  A small RSA key (\<open>n = 3 * 11\<close>, \<open>e = 3\<close>, \<open>d = 7\<close>), the registry after \<^verbatim>\<open>bootstrap\<close>
  has stored it and seeded two voters, and the application state with a fresh ledger.
\<close>

definition sample_public :: rsa_public where
  "sample_public = \<lparr>pub_n = 33, pub_e = 3\<rparr>"

definition sample_private :: rsa_private where
  "sample_private = \<lparr>priv_n = 33, priv_d = 7\<rparr>"

definition sample_registry :: registry where
  "sample_registry = snd (bootstrap init_db (sample_private, sample_public) [''VOTER_00001'', ''V2''])"

definition sample_app :: app where
  "sample_app = \<lparr>app_registry = sample_registry, app_ledger = load_or_init sample_lib NoFile 0\<rparr>"

text \<open>The characters of the class \<^verbatim>\<open>[A-Za-z0-9_]\<close>.\<close>

definition word_chars :: string where
  "word_chars = ''ABCDEFGHIJKLMNOPQRSTUVWXYZabcdefghijklmnopqrstuvwxyz0123456789_''"

text \<open>The sample registry with the further eligible voter \<^verbatim>\<open>a-b\<close>.\<close>

definition hyphen_registry :: registry where
  "hyphen_registry = seed_eligible_voters sample_registry [''a-b'']"

text \<open>
  The operations that write to the registry database, and a sequence of them applied in
  order. An \<^verbatim>\<open>issue_blind_token\<close> call that raises leaves the database as it was.
\<close>

datatype registry_op =
  SeedVoters "string list"
  | RegisterVoter string string
  | StoreKeys rsa_private rsa_public
  | Bootstrap "rsa_private \<times> rsa_public" "string list"
  | IssueToken string string string

fun apply_op :: "pylib \<Rightarrow> registry \<Rightarrow> registry_op \<Rightarrow> registry" where
  "apply_op L db (SeedVoters voter_ids) = seed_eligible_voters db voter_ids"
| "apply_op L db (RegisterVoter voter_id now) = register_voter db voter_id now"
| "apply_op L db (StoreKeys private_key public_key) = store_issuer_keys db private_key public_key"
| "apply_op L db (Bootstrap generated voter_ids) = snd (bootstrap db generated voter_ids)"
| "apply_op L db (IssueToken voter_id blinded_token_b64 now) =
     (case issue_blind_token L db voter_id blinded_token_b64 now of
        Inl err \<Rightarrow> db
      | Inr (reply, db') \<Rightarrow> db')"

definition apply_ops :: "pylib \<Rightarrow> registry \<Rightarrow> registry_op list \<Rightarrow> registry" where
  "apply_ops L db ops = foldl (apply_op L) db ops"

text \<open>
  The issuer key pair is stored, with a positive modulus and a non-negative private
  exponent, as it is after \<^verbatim>\<open>bootstrap\<close> stored a pair of \<^verbatim>\<open>RSA.generate\<close>.
\<close>

definition keys_ok :: "registry \<Rightarrow> bool" where
  "keys_ok db =
     (case get_issuer_keys db of
        None \<Rightarrow> False
      | Some (private_key, public_key) \<Rightarrow> 0 < priv_n private_key \<and> 0 \<le> priv_d private_key)"

text \<open>
  Primality by trial division, and an RSA key pair over the primes \<open>p\<close> and \<open>q\<close>: both
  keys carry the modulus \<open>p * q\<close>, and \<open>e * d \<equiv> 1\<close> modulo \<open>lcm (p - 1) (q - 1)\<close>, which
  also holds when \<open>e * d \<equiv> 1\<close> modulo \<open>(p - 1) * (q - 1)\<close>.
\<close>

definition is_prime :: "nat \<Rightarrow> bool" where
  "is_prime p = (1 < p \<and> list_all (\<lambda>k. \<not> k dvd p) [2..<p])"

definition rsa_keypair :: "nat \<Rightarrow> nat \<Rightarrow> rsa_private \<Rightarrow> rsa_public \<Rightarrow> bool" where
  "rsa_keypair p q priv pub =
     (is_prime p \<and> is_prime q \<and> p \<noteq> q
      \<and> pub_n pub = int (p * q) \<and> priv_n priv = int (p * q)
      \<and> 0 < pub_e pub \<and> 0 < priv_d priv
      \<and> int (lcm (p - 1) (q - 1)) dvd pub_e pub * priv_d priv - 1)"

section \<open>Properties\<close>

subsection \<open>Chain verification\<close>

lemma is_valid_from_iff:
  "is_valid_from L ch i \<longleftrightarrow>
     (\<forall>j. i \<le> j \<and> j < length ch \<longrightarrow>
        hash (ch ! j) = compute_hash L (ch ! j) \<and> previous_hash (ch ! j) = hash (ch ! (j - 1)))"
proof (induction L ch i rule: is_valid_from.induct)
  case (1 L ch i)
  show ?case
  proof (cases "i < length ch")
    case False
    then show ?thesis by (subst is_valid_from.simps) auto
  next
    case True
    let ?ok = "\<lambda>j. hash (ch ! j) = compute_hash L (ch ! j) \<and> previous_hash (ch ! j) = hash (ch ! (j - 1))"
    show ?thesis
    proof (cases "?ok i")
      case False
      have "\<not> is_valid_from L ch i"
        using True False by (subst is_valid_from.simps) (auto simp: Let_def)
      moreover have "\<not> (\<forall>j. i \<le> j \<and> j < length ch \<longrightarrow> ?ok j)"
        using True False by blast
      ultimately show ?thesis by blast
    next
      case ok: True
      have step: "is_valid_from L ch i = is_valid_from L ch (i + 1)"
        using True ok by (subst is_valid_from.simps) (simp add: Let_def)
      have ih: "is_valid_from L ch (i + 1) \<longleftrightarrow> (\<forall>j. i + 1 \<le> j \<and> j < length ch \<longrightarrow> ?ok j)"
        using "1.IH" [OF True refl refl] ok by simp
      have "(\<forall>j. i \<le> j \<and> j < length ch \<longrightarrow> ?ok j) \<longleftrightarrow> (\<forall>j. i + 1 \<le> j \<and> j < length ch \<longrightarrow> ?ok j)"
      proof
        assume "\<forall>j. i \<le> j \<and> j < length ch \<longrightarrow> ?ok j"
        then show "\<forall>j. i + 1 \<le> j \<and> j < length ch \<longrightarrow> ?ok j" by simp
      next
        assume a: "\<forall>j. i + 1 \<le> j \<and> j < length ch \<longrightarrow> ?ok j"
        show "\<forall>j. i \<le> j \<and> j < length ch \<longrightarrow> ?ok j"
        proof (intro allI impI)
          fix j assume "i \<le> j \<and> j < length ch"
          then consider "j = i" | "i + 1 \<le> j \<and> j < length ch" by linarith
          then show "?ok j" using ok a by cases auto
        qed
      qed
      with step ih show ?thesis by simp
    qed
  qed
qed

subsection \<open>Tallies\<close>

lemma tally_vote_apply:
  "tally_vote v t c =
     (case t c of None \<Rightarrow> None
      | Some k \<Rightarrow> Some (k + (if v ''candidate'' = Some (VStr c) then 1 else 0)))"
  by (auto simp: tally_vote_def split: option.splits vval.splits)

lemma fold_tally_vote_apply:
  "fold tally_vote vs t c =
     (case t c of None \<Rightarrow> None | Some k \<Rightarrow> Some (k + count_choice c vs))"
proof (induction vs arbitrary: t)
  case Nil
  show ?case by (simp add: count_choice_def split: option.splits)
next
  case (Cons v vs)
  have "fold tally_vote (v # vs) t c = fold tally_vote vs (tally_vote v t) c"
    by simp
  also have "\<dots> = (case tally_vote v t c of None \<Rightarrow> None
                      | Some k \<Rightarrow> Some (k + count_choice c vs))"
    by (rule Cons.IH)
  also have "\<dots> = (case t c of None \<Rightarrow> None | Some k \<Rightarrow> Some (k + count_choice c (v # vs)))"
    using tally_vote_apply [of v t c]
    by (cases "t c") (simp_all add: count_choice_def)
  finally show ?case .
qed

lemma fold_blocks_concat:
  "fold (\<lambda>b t. fold tally_vote (votes b) t) bs t = fold tally_vote (concat (map votes bs)) t"
  by (induction bs arbitrary: t) simp_all

lemma initial_tallies:
  "map_of (map (\<lambda>c. (c, 0::nat)) CANDIDATES) c = (if c \<in> set CANDIDATES then Some 0 else None)"
  by (simp add: CANDIDATES_def)

lemma get_tallies_apply:
  "get_tallies st c =
     (if c \<in> set CANDIDATES then Some (count_choice c (recorded_votes st)) else None)"
  unfolding get_tallies_def fold_blocks_concat recorded_votes_def
  by (simp add: fold_tally_vote_apply initial_tallies del: drop_Suc_Cons)

lemma dom_get_tallies: "dom (get_tallies st) = set CANDIDATES"
  by (auto simp: dom_def get_tallies_apply)

lemma distinct_CANDIDATES: "distinct CANDIDATES"
  by (simp add: CANDIDATES_def)

lemma sum_count_choice:
  "(\<Sum>c\<in>set CANDIDATES. count_choice c vs) = length (filter counted vs)"
proof (induction vs)
  case Nil
  show ?case by (simp add: count_choice_def)
next
  case (Cons v vs)
  have one: "(\<Sum>c\<in>set CANDIDATES. (if v ''candidate'' = Some (VStr c) then 1 else 0 :: nat))
             = (if counted v then 1 else 0)"
  proof (cases "counted v")
    case True
    then obtain c where c: "v ''candidate'' = Some (VStr c)" "c \<in> set CANDIDATES"
      by (auto simp: counted_def split: option.splits vval.splits)
    have "(\<Sum>x\<in>set CANDIDATES. (if v ''candidate'' = Some (VStr x) then 1 else 0 :: nat))
          = (\<Sum>x\<in>set CANDIDATES. (if x = c then 1 else 0))"
      using c by (intro sum.cong) auto
    also have "\<dots> = 1" using c by simp
    finally show ?thesis using True by simp
  next
    case False
    then have "\<And>c. c \<in> set CANDIDATES \<Longrightarrow> v ''candidate'' \<noteq> Some (VStr c)"
      by (auto simp: counted_def split: option.splits vval.splits)
    then show ?thesis using False by simp
  qed
  have "(\<Sum>c\<in>set CANDIDATES. count_choice c (v # vs))
        = (\<Sum>c\<in>set CANDIDATES. (if v ''candidate'' = Some (VStr c) then 1 else 0) + count_choice c vs)"
    by (intro sum.cong) (auto simp: count_choice_def)
  also have "\<dots> = (if counted v then 1 else 0) + length (filter counted vs)"
    by (simp add: sum.distrib one Cons.IH)
  finally show ?case by simp
qed

lemma tallies_total_eq: "tallies_total (get_tallies st) = length (filter counted (recorded_votes st))"
proof -
  have "tallies_total (get_tallies st) = (\<Sum>c\<in>set CANDIDATES. count_choice c (recorded_votes st))"
    unfolding tallies_total_def dom_get_tallies
    by (intro sum.cong) (simp_all add: get_tallies_apply)
  then show ?thesis by (simp add: sum_count_choice)
qed

lemma total_votes_eq: "total_votes (get_stats st) = length (recorded_votes st)"
  by (simp add: get_stats_def recorded_votes_def length_concat comp_def del: drop_Suc_Cons)

subsection \<open>Proof of work and casting a vote\<close>

lemma proof_of_work_pow_ok: "proof_of_work L b = Some b' \<Longrightarrow> pow_ok b'"
proof (induction rule: proof_of_work.raw_induct [rotated 1, consumes 1])
  case (1 pw L b b')
  then show ?case by (auto split: if_splits)
qed

lemma next_nonce_fields [simp]:
  "index (next_nonce L b) = index b" "timestamp (next_nonce L b) = timestamp b"
  "votes (next_nonce L b) = votes b" "previous_hash (next_nonce L b) = previous_hash b"
  "nonce (next_nonce L b) = nonce b + 1"
  "hash (next_nonce L b) = compute_hash L (next_nonce L b)"
  by (simp_all add: next_nonce_def Let_def compute_hash_def)

lemma proof_of_work_fields:
  "proof_of_work L b = Some b' \<Longrightarrow>
     index b' = index b \<and> timestamp b' = timestamp b \<and> votes b' = votes b
     \<and> previous_hash b' = previous_hash b \<and> nonce b \<le> nonce b'
     \<and> (hash b = compute_hash L b \<longrightarrow> hash b' = compute_hash L b')"
proof (induction rule: proof_of_work.raw_induct [rotated 1, consumes 1])
  case (1 pw L b b')
  show ?case
  proof (cases "pow_ok b")
    case True
    with 1(2) show ?thesis by simp
  next
    case False
    with 1(2) have "pw L (next_nonce L b) = Some b'" by simp
    from 1(1) [OF this] show ?thesis by simp
  qed
qed

lemma proof_of_work_terminates:
  "pow_ok ((next_nonce L ^^ k) b) \<Longrightarrow> \<exists>b'. proof_of_work L b = Some b'"
proof (induction k arbitrary: b)
  case 0
  then show ?case by (subst proof_of_work.simps) simp
next
  case (Suc k)
  show ?case
  proof (cases "pow_ok b")
    case True
    then show ?thesis by (subst proof_of_work.simps) simp
  next
    case False
    from Suc.prems have "pow_ok ((next_nonce L ^^ k) (next_nonce L b))"
      by (simp add: funpow_swap1)
    from Suc.IH [OF this] obtain b' where "proof_of_work L (next_nonce L b) = Some b'" ..
    with False show ?thesis by (subst proof_of_work.simps) simp
  qed
qed

lemma Block_init_fields [simp]:
  "index (Block_init L i ts vs ph nc) = i" "timestamp (Block_init L i ts vs ph nc) = ts"
  "votes (Block_init L i ts vs ph nc) = vs" "previous_hash (Block_init L i ts vs ph nc) = ph"
  "nonce (Block_init L i ts vs ph nc) = nc"
  "hash (Block_init L i ts vs ph nc) = compute_hash L (Block_init L i ts vs ph nc)"
  by (simp_all add: Block_init_def Let_def compute_hash_def)

lemma cast_vote_spent:
  "nf |\<in>| spent_tokens st \<Longrightarrow>
   cast_vote L st nf candidate signature_hex t1 t2 =
     Some (Inr (VoteFailure (if candidate \<in> set CANDIDATES then DoubleVote else InvalidChoice)), st)"
  by (simp add: cast_vote_def)

lemma cast_vote_success:
  assumes "cast_vote L st th c s t1 t2 = Some (Inr (VoteSuccess h i), st')"
  shows "\<exists>b. chain st' = chain st @ [b] \<and> pow_ok b \<and> hash b = h \<and> index b = i
             \<and> i = int (length (chain st)) \<and> hash b = compute_hash L b
             \<and> previous_hash b = hash (last (chain st))
             \<and> votes b = [vote_record th c t1 s] \<and> chain st \<noteq> []
             \<and> spent_tokens st' = finsert th (spent_tokens st) \<and> th |\<notin>| spent_tokens st
             \<and> c \<in> set CANDIDATES \<and> pending_votes st' = []"
proof -
  from assms have c: "c \<in> set CANDIDATES" and th: "th |\<notin>| spent_tokens st" and ne: "chain st \<noteq> []"
    by (auto simp: cast_vote_def Let_def split: if_splits option.splits)
  let ?b0 = "Block_init L (int (length (chain st))) t2 [vote_record th c t1 s] (hash (last (chain st))) 0"
  from assms c th ne obtain b where b: "proof_of_work L ?b0 = Some b"
    and h: "h = hash b" "i = index b"
    and st': "st' = st\<lparr>spent_tokens := finsert th (spent_tokens st),
                        pending_votes := pending_votes st @ [vote_record th c t1 s],
                        chain := chain st @ [b], pending_votes := []\<rparr>"
    by (auto simp: cast_vote_def Let_def split: option.splits)
  from proof_of_work_fields [OF b] proof_of_work_pow_ok [OF b] h st' c th ne
  show ?thesis by simp
qed

lemma cast_vote_spent_mono:
  "cast_vote L st th c s t1 t2 = Some (r, st') \<Longrightarrow> x |\<in>| spent_tokens st \<Longrightarrow> x |\<in>| spent_tokens st'"
  by (auto simp: cast_vote_def Let_def split: if_splits option.splits)

lemma cast_votes_spent_mono:
  "cast_votes L st reqs = Some st' \<Longrightarrow> x |\<in>| spent_tokens st \<Longrightarrow> x |\<in>| spent_tokens st'"
proof (induction reqs arbitrary: st)
  case Nil
  then show ?case by simp
next
  case (Cons req reqs)
  obtain th c s t1 t2 where req: "req = (th, c, s, t1, t2)" by (cases req) auto
  from Cons.prems(1) obtain r st1 where
    one: "cast_vote L st th c s t1 t2 = Some (r, st1)" and rest: "cast_votes L st1 reqs = Some st'"
    by (auto simp: req split: option.splits)
  from cast_vote_spent_mono [OF one Cons.prems(2)] have "x |\<in>| spent_tokens st1" .
  from Cons.IH [OF rest this] show ?case .
qed

subsection \<open>The sample ledger\<close>

lemma hash_sample_genesis:
  "hash (genesis sample_lib 0) = ''ff00000000000000000000000000000000000000000000000000000000000000''"
  by code_simp

lemma hash_sample_block:
  "hash sample_block = ''0000000000000000000000000000000000000000000000000000000000000000''"
  by code_simp

lemma hash_sample_block_ok: "hash sample_block = compute_hash sample_lib sample_block"
  by (simp add: sample_block_def)

lemma previous_hash_sample_block: "previous_hash sample_block = hash (genesis sample_lib 0)"
  by (simp add: sample_block_def)

lemma votes_sample_block: "votes sample_block = [vote_record ''ab'' ''Candidate A'' 1 ''sig'']"
  by (simp add: sample_block_def)

lemma pow_ok_iff: "pow_ok b \<longleftrightarrow> take 2 (hash b) = ''00''"
  by (simp add: pow_ok_def startswith_def DIFFICULTY_def numeral_2_eq_2)

lemma pow_ok_sample_block: "pow_ok sample_block"
  by (simp add: pow_ok_iff hash_sample_block)

lemma not_pow_ok_sample_genesis: "\<not> pow_ok (genesis sample_lib 0)"
  by (simp add: pow_ok_iff hash_sample_genesis)

lemma sample_cast:
  "cast_vote sample_lib (load_or_init sample_lib NoFile 0) ''ab'' ''Candidate A'' ''sig'' 1 2
     = Some (Inr (VoteSuccess ''0000000000000000000000000000000000000000000000000000000000000000'' 1),
             sample_ledger)"
proof -
  let ?b0 = "Block_init sample_lib 1 2 [vote_record ''ab'' ''Candidate A'' 1 ''sig'']
          (hash (genesis sample_lib 0)) 0"
  have "hash ?b0 = ''ff00000000000000000000000000000000000000000000000000000000000000''"
    by code_simp
  then have "\<not> pow_ok ?b0"
    by (simp add: pow_ok_iff)
  moreover have "pow_ok (next_nonce sample_lib ?b0)"
    using pow_ok_sample_block by (simp add: sample_block_def)
  ultimately have pw: "proof_of_work sample_lib ?b0 = Some sample_block"
    by (subst proof_of_work.simps, simp, subst proof_of_work.simps, simp add: sample_block_def)
  show ?thesis
    using pw hash_sample_block
    by (simp add: cast_vote_def load_or_init_def CANDIDATES_def Let_def sample_ledger_def
        sample_block_def)
qed

section \<open>The claims\<close>

subsection \<open>Block lookup\<close>

text \<open>
  Claim C9. \<^verbatim>\<open>get_block\<close> is total over the integers: for an index \<open>i\<close> with
  \<open>0 \<le> i < len(chain)\<close> it returns the dict of the block at position \<open>i\<close>, and for every
  other index, negative ones included, it returns \<^verbatim>\<open>None\<close>; it never raises.
\<close>

theorem get_block_total:
  "(0 \<le> i \<and> i < int (length (chain st)) \<longrightarrow> get_block st i = Some (to_dict (chain st ! nat i)))
   \<and> (i < 0 \<or> int (length (chain st)) \<le> i \<longrightarrow> get_block st i = None)"
  by (auto simp: get_block_def)

text \<open>On the sample ledger of two blocks: the indices 0 and 1, and the indices -1 and 2.\<close>

theorem get_block_total_witness:
  "get_block sample_ledger 0 = Some (to_dict (genesis sample_lib 0))
   \<and> get_block sample_ledger 1 = Some (to_dict sample_block)
   \<and> get_block sample_ledger (- 1) = None
   \<and> get_block sample_ledger 2 = None"
  using get_block_total [of 0 sample_ledger] get_block_total [of 1 sample_ledger]
    get_block_total [of "- 1" sample_ledger] get_block_total [of 2 sample_ledger]
  by (simp add: sample_ledger_def)

subsection \<open>Chain verification\<close>


text \<open>
  On the sample ledger the report is valid, on the ledger with the changed nonce it is not,
  and an unmined block whose hash starts with \<open>ff\<close> is accepted.
\<close>

lemma tampered_hash:
  "compute_hash sample_lib (sample_block\<lparr>nonce := 0\<rparr>)
     = ''ff00000000000000000000000000000000000000000000000000000000000000''"
  by code_simp


subsection \<open>Tallies\<close>

lemma from_dict_to_dict: "from_dict L (to_dict b) = b"
  by (simp add: from_dict_def to_dict_def Block_init_def Let_def)

lemma recorded_votes_sample: "recorded_votes sample_ledger = [vote_record ''ab'' ''Candidate A'' 1 ''sig'']"
  by (simp add: recorded_votes_def sample_ledger_def votes_sample_block)

lemma tally_vote_ignored:
  assumes "\<not> counted v" "dom t = set CANDIDATES"
  shows "tally_vote v t = t"
proof (cases "v ''candidate''")
  case None
  then show ?thesis by (simp add: tally_vote_def)
next
  case (Some x)
  show ?thesis
  proof (cases x)
    case (VFloat r)
    with Some show ?thesis by (simp add: tally_vote_def)
  next
    case (VStr c)
    with Some assms(1) have "c \<notin> set CANDIDATES" by (simp add: counted_def)
    with assms(2) have "t c = None" by auto
    with Some VStr show ?thesis by (simp add: tally_vote_def)
  qed
qed

lemma filter_split_length: "length (filter P xs) + length (filter (\<lambda>x. \<not> P x) xs) = length xs"
  by (induction xs) simp_all

lemma stray_loaded:
  "load_or_init L (Document (stray_document L)) now =
     \<lparr>chain = [genesis L 0, Block_init L 1 0 [stray_vote] (hash (genesis L 0)) 0],
      pending_votes = [], spent_tokens = {|''cd''|}\<rparr>"
proof -
  let ?ch = "[genesis L 0, Block_init L 1 0 [stray_vote] (hash (genesis L 0)) 0]"
  have "is_valid_from L ?ch 1"
    unfolding is_valid_from_iff
  proof (intro allI impI)
    fix j :: nat
    assume "1 \<le> j \<and> j < length ?ch"
    then have "j = 1" by simp
    then show "hash (?ch ! j) = compute_hash L (?ch ! j) \<and> previous_hash (?ch ! j) = hash (?ch ! (j - 1))"
      by simp
  qed
  then show ?thesis
    by (simp add: load_or_init_def stray_document_def from_dict_to_dict is_valid_def)
qed

text \<open>
  Claim C7. For every ledger state the map of \<^verbatim>\<open>get_tallies\<close> has exactly the members
  of \<open>CANDIDATES\<close> as keys, and the value at a candidate \<open>c\<close> is the number of vote
  records with choice \<open>c\<close> in the blocks 1 to the end of the chain; the genesis block is
  not counted, and a candidate without votes has the value 0.
\<close>

theorem get_tallies_counts:
  "dom (get_tallies st) = set CANDIDATES
   \<and> (\<forall>c\<in>set CANDIDATES. get_tallies st c = Some (count_choice c (recorded_votes st)))"
  by (simp add: dom_get_tallies get_tallies_apply)

text \<open>The sample ledger holds one vote for the first candidate, a fresh ledger none.\<close>

theorem get_tallies_counts_witness:
  "dom (get_tallies sample_ledger) = {''Candidate A'', ''Candidate B'', ''Candidate C''}
   \<and> get_tallies sample_ledger ''Candidate A'' = Some 1
   \<and> get_tallies sample_ledger ''Candidate B'' = Some 0
   \<and> get_tallies sample_ledger ''Candidate C'' = Some 0
   \<and> get_tallies (load_or_init sample_lib NoFile 0) ''Candidate A'' = Some 0"
proof -
  have fresh: "recorded_votes (load_or_init sample_lib NoFile 0) = []"
    by (simp add: recorded_votes_def load_or_init_def)
  show ?thesis
    using get_tallies_counts [of sample_ledger] get_tallies_counts [of "load_or_init sample_lib NoFile 0"]
    by (simp add: CANDIDATES_def recorded_votes_sample fresh count_choice_def vote_record_def)
qed



subsection \<open>Double voting\<close>

lemma spent_sample: "''ab'' |\<in>| spent_tokens sample_ledger"
  by (simp add: sample_ledger_def)

text \<open>
  Claim C2, as amended. An accepted ballot puts its nullifier \<open>nf\<close> into the spent-set.
  In every ledger state whose spent-set holds \<open>nf\<close>, and in every state reached from it
  by further \<^verbatim>\<open>cast_vote\<close> calls, a \<^verbatim>\<open>cast_vote\<close> with the token hash \<open>nf\<close> fails
  and returns the state as it was, so chain, spent-set and tallies are unchanged: with the
  DoubleVote error when the choice is a member of \<open>CANDIDATES\<close>, and with the
  InvalidChoice error otherwise, since the candidate is checked first.
\<close>

theorem double_vote_rejected:
  "(cast_vote L st0 nf c0 s0 a0 b0 = Some (Inr (VoteSuccess h i), st) \<longrightarrow> nf |\<in>| spent_tokens st)
   \<and> (nf |\<in>| spent_tokens st \<and> cast_votes L st reqs = Some st' \<longrightarrow>
        cast_vote L st' nf c s t1 t2 =
          Some (Inr (VoteFailure (if c \<in> set CANDIDATES then DoubleVote else InvalidChoice)), st'))"
proof (intro conjI impI)
  assume "cast_vote L st0 nf c0 s0 a0 b0 = Some (Inr (VoteSuccess h i), st)"
  from cast_vote_success [OF this] show "nf |\<in>| spent_tokens st" by auto
next
  assume "nf |\<in>| spent_tokens st \<and> cast_votes L st reqs = Some st'"
  then have "nf |\<in>| spent_tokens st'" using cast_votes_spent_mono by blast
  then show "cast_vote L st' nf c s t1 t2 =
          Some (Inr (VoteFailure (if c \<in> set CANDIDATES then DoubleVote else InvalidChoice)), st')"
    by (rule cast_vote_spent)
qed

text \<open>
  The second scenario of the specification: the token of the sample ledger's ballot is used
  again for the second candidate.
\<close>

theorem double_vote_rejected_witness:
  "''ab'' |\<in>| spent_tokens sample_ledger
   \<and> cast_vote sample_lib sample_ledger ''ab'' ''Candidate B'' ''sig2'' 3 4
       = Some (Inr (VoteFailure DoubleVote), sample_ledger)
   \<and> get_tallies sample_ledger ''Candidate B'' = Some 0"
proof -
  have run: "cast_votes sample_lib sample_ledger [] = Some sample_ledger" by simp
  have acc: "cast_vote sample_lib (load_or_init sample_lib NoFile 0) ''ab'' ''Candidate A'' ''sig'' 1 2
     = Some (Inr (VoteSuccess ''0000000000000000000000000000000000000000000000000000000000000000'' 1),
             sample_ledger)"
    by (rule sample_cast)
  have "get_tallies sample_ledger ''Candidate B'' = Some 0"
    by (simp add: get_tallies_apply CANDIDATES_def recorded_votes_sample count_choice_def vote_record_def)
  then show ?thesis
    using double_vote_rejected [of sample_lib "load_or_init sample_lib NoFile 0" "''ab''"
        "''Candidate A''" "''sig''" 1 2
        "''0000000000000000000000000000000000000000000000000000000000000000''" 1 sample_ledger
        "[]" sample_ledger "''Candidate B''" "''sig2''" 3 4]
      acc run
    by (simp add: CANDIDATES_def)
qed

text \<open>
  The claim as first stated promises DoubleVote for every call with a spent nullifier; a
  call that names no candidate of the list is answered with InvalidChoice instead.
\<close>

theorem double_vote_counterexample:
  "''ab'' |\<in>| spent_tokens sample_ledger
   \<and> cast_vote sample_lib sample_ledger ''ab'' ''Nobody'' ''sig'' 3 4
       = Some (Inr (VoteFailure InvalidChoice), sample_ledger)
   \<and> cast_vote sample_lib sample_ledger ''ab'' ''Nobody'' ''sig'' 3 4
       \<noteq> Some (Inr (VoteFailure DoubleVote), sample_ledger)"
  by (simp add: cast_vote_def CANDIDATES_def spent_sample)

subsection \<open>Proof of work on the chain\<close>

lemma cast_vote_chain:
  assumes "cast_vote L st nf c s t1 t2 = Some (r, st')"
  shows "chain st' = chain st \<or> (\<exists>b. chain st \<noteq> [] \<and> chain st' = chain st @ [b] \<and> pow_ok b)"
proof (cases r)
  case (Inl e)
  with assms show ?thesis
    by (auto simp: cast_vote_def Let_def split: if_splits option.splits)
next
  case (Inr reply)
  show ?thesis
  proof (cases reply)
    case (VoteFailure e)
    with Inr assms have "st' = st"
      by (auto simp: cast_vote_def Let_def split: if_splits option.splits)
    then show ?thesis by simp
  next
    case (VoteSuccess h i)
    with Inr assms have "cast_vote L st nf c s t1 t2 = Some (Inr (VoteSuccess h i), st')" by simp
    from cast_vote_success [OF this] show ?thesis by blast
  qed
qed

lemma cast_vote_pow_invariant:
  assumes "cast_vote L st nf c s t1 t2 = Some (r, st')" "list_all pow_ok (drop 1 (chain st))"
  shows "list_all pow_ok (drop 1 (chain st'))"
proof -
  from cast_vote_chain [OF assms(1)] show ?thesis
  proof
    assume "chain st' = chain st"
    with assms(2) show ?thesis by simp
  next
    assume "\<exists>b. chain st \<noteq> [] \<and> chain st' = chain st @ [b] \<and> pow_ok b"
    then obtain b where b: "chain st \<noteq> []" "chain st' = chain st @ [b]" "pow_ok b" by blast
    then have "drop 1 (chain st') = drop 1 (chain st) @ [b]" by (cases "chain st") simp_all
    with assms(2) b(3) show ?thesis by simp
  qed
qed

lemma cast_votes_pow_invariant:
  "cast_votes L st reqs = Some st' \<Longrightarrow> list_all pow_ok (drop 1 (chain st))
     \<Longrightarrow> list_all pow_ok (drop 1 (chain st'))"
proof (induction reqs arbitrary: st)
  case Nil
  then show ?case by simp
next
  case (Cons req reqs)
  obtain th c s t1 t2 where req: "req = (th, c, s, t1, t2)" by (cases req) auto
  from Cons.prems(1) obtain r st1 where
    one: "cast_vote L st th c s t1 t2 = Some (r, st1)" and rest: "cast_votes L st1 reqs = Some st'"
    by (auto simp: req split: option.splits)
  from cast_vote_pow_invariant [OF one Cons.prems(2)] have "list_all pow_ok (drop 1 (chain st1))" .
  from Cons.IH [OF rest this] show ?case .
qed

lemma unmined_loaded:
  "chain (load_or_init L (Document unmined_document) now) =
     [\<lparr>index = 0, timestamp = 0, votes = [], previous_hash = replicate 64 (CHR ''0''), nonce = 0,
       hash = ''ff00000000000000000000000000000000000000000000000000000000000000''\<rparr>]"
proof -
  have "is_valid_from L [from_dict L (hd (doc_chain unmined_document))] 1"
    by (subst is_valid_from.simps) simp
  then show ?thesis
    by (simp add: load_or_init_def unmined_document_def is_valid_def from_dict_def
        Block_init_def Let_def)
qed

text \<open>
  Claim C4, as amended. Every block that \<^verbatim>\<open>cast_vote\<close> appends satisfies the
  proof-of-work rule: its hash begins with \<open>DIFFICULTY = 2\<close> zero hex digits. Hence on a
  ledger started without a chain file every block after the genesis block satisfies the
  rule, whatever votes are cast. The genesis block is built by the constructor with nonce 0
  and its hash is the hash of that content: it is not mined. The search of \<^verbatim>\<open>cast_vote\<close>
  returns, and the vote is accepted, as soon as some number of nonce increments gives a hash
  with the prefix (last conjunct).
\<close>

theorem appended_blocks_satisfy_pow:
  "(cast_vote L st nf c s t1 t2 = Some (Inr (VoteSuccess h i), st') \<longrightarrow>
      (\<exists>b. chain st' = chain st @ [b] \<and> pow_ok b \<and> hash b = h))
   \<and> (cast_votes L (load_or_init L NoFile now) reqs = Some st'' \<longrightarrow>
        list_all pow_ok (drop 1 (chain st'')))
   \<and> chain (load_or_init L NoFile now) = [genesis L now]
   \<and> nonce (genesis L now) = 0
   \<and> hash (genesis L now) = compute_hash L (genesis L now)
   \<and> (c \<in> set CANDIDATES \<and> nf |\<notin>| spent_tokens st \<and> chain st \<noteq> []
        \<and> pow_ok ((next_nonce L ^^ k)
              (Block_init L (int (length (chain st))) t2 [vote_record nf c t1 s]
                 (hash (last (chain st))) 0)) \<longrightarrow>
       (\<exists>b. cast_vote L st nf c s t1 t2 =
              Some (Inr (VoteSuccess (hash b) (int (length (chain st)))),
                    st\<lparr>spent_tokens := finsert nf (spent_tokens st), chain := chain st @ [b],
                       pending_votes := []\<rparr>)))"
proof (intro conjI impI)
  assume "cast_vote L st nf c s t1 t2 = Some (Inr (VoteSuccess h i), st')"
  from cast_vote_success [OF this] show "\<exists>b. chain st' = chain st @ [b] \<and> pow_ok b \<and> hash b = h"
    by blast
next
  assume run: "cast_votes L (load_or_init L NoFile now) reqs = Some st''"
  have "list_all pow_ok (drop 1 (chain (load_or_init L NoFile now)))"
    by (simp add: load_or_init_def)
  from cast_votes_pow_invariant [OF run this] show "list_all pow_ok (drop 1 (chain st''))" .
next
  show "chain (load_or_init L NoFile now) = [genesis L now]" by (simp add: load_or_init_def)
next
  show "nonce (genesis L now) = 0" by (simp add: genesis_def)
next
  show "hash (genesis L now) = compute_hash L (genesis L now)" by (simp add: genesis_def)
next
  let ?b0 = "Block_init L (int (length (chain st))) t2 [vote_record nf c t1 s]
                 (hash (last (chain st))) 0"
  assume a: "c \<in> set CANDIDATES \<and> nf |\<notin>| spent_tokens st \<and> chain st \<noteq> []
        \<and> pow_ok ((next_nonce L ^^ k) ?b0)"
  then have "\<exists>b. proof_of_work L ?b0 = Some b" using proof_of_work_terminates by blast
  then obtain b where b: "proof_of_work L ?b0 = Some b" ..
  from proof_of_work_fields [OF b] have "index b = int (length (chain st))" by simp
  with a b have "cast_vote L st nf c s t1 t2 =
              Some (Inr (VoteSuccess (hash b) (int (length (chain st)))),
                    st\<lparr>spent_tokens := finsert nf (spent_tokens st), chain := chain st @ [b],
                       pending_votes := []\<rparr>)"
    by (simp add: cast_vote_def Let_def)
  then show "\<exists>b. cast_vote L st nf c s t1 t2 =
              Some (Inr (VoteSuccess (hash b) (int (length (chain st)))),
                    st\<lparr>spent_tokens := finsert nf (spent_tokens st), chain := chain st @ [b],
                       pending_votes := []\<rparr>)" ..
qed

text \<open>The vote cast on the fresh sample ledger appends the mined sample block.\<close>

theorem appended_blocks_satisfy_pow_witness:
  "chain sample_ledger = chain (load_or_init sample_lib NoFile 0) @ [sample_block]
   \<and> pow_ok sample_block
   \<and> list_all pow_ok (drop 1 (chain sample_ledger))
   \<and> nonce (genesis sample_lib 0) = 0"
proof -
  have run: "cast_votes sample_lib (load_or_init sample_lib NoFile 0)
               [(''ab'', ''Candidate A'', ''sig'', 1, 2)] = Some sample_ledger"
    by (simp add: sample_cast)
  show ?thesis
    using appended_blocks_satisfy_pow [of sample_lib "load_or_init sample_lib NoFile 0" "''ab''"
        "''Candidate A''" "''sig''" 1 2
        "''0000000000000000000000000000000000000000000000000000000000000000''" 1 sample_ledger
        0 "[(''ab'', ''Candidate A'', ''sig'', 1, 2)]" sample_ledger]
      sample_cast run pow_ok_sample_block
    by (simp add: sample_ledger_def load_or_init_def)
qed

text \<open>
  The claim as first stated includes the genesis block. The genesis block that
  \<^verbatim>\<open>_load_or_init\<close> creates is not mined, and a chain file whose block 0 stores any hash
  is loaded as it is, because \<^verbatim>\<open>_is_valid\<close> starts at index 1 and never looks at the
  prefix.
\<close>

theorem genesis_pow_counterexample:
  "\<not> pow_ok (hd (chain (load_or_init sample_lib NoFile 0)))
   \<and> \<not> pow_ok (hd (chain (load_or_init sample_lib (Document unmined_document) 0)))"
proof -
  have "\<not> pow_ok (hd (chain (load_or_init sample_lib NoFile 0)))"
    using not_pow_ok_sample_genesis by (simp add: load_or_init_def)
  moreover have "\<not> pow_ok (hd (chain (load_or_init sample_lib (Document unmined_document) 0)))"
    by (simp add: unmined_loaded pow_ok_iff)
  ultimately show ?thesis by blast
qed

subsection \<open>Credential verification\<close>

lemma sample_registry_eq:
  "sample_registry =
     \<lparr>eligible_voters = {|''VOTER_00001'', ''V2''|}, voters = Map.empty,
      issuer_keys = Some (sample_private, sample_public)\<rparr>"
  by (simp add: sample_registry_def bootstrap_def init_db_def get_issuer_keys_def
      store_issuer_keys_def seed_eligible_voters_def funion_finsert_right)

lemma cast_vote_never_invalid_credential:
  "cast_vote L led th c s t1 t2 \<noteq> Some (Inr (VoteFailure InvalidCredential), led')"
  by (auto simp: cast_vote_def Let_def split: option.splits)

lemma sample_cast_any:
  "cast_vote sample_lib (load_or_init sample_lib NoFile 0) nf ''Candidate A'' s t1 t2
     = Some (Inr (VoteSuccess ''0000000000000000000000000000000000000000000000000000000000000000'' 1),
         \<lparr>chain = [genesis sample_lib 0,
                    next_nonce sample_lib
                      (Block_init sample_lib 1 t2 [vote_record nf ''Candidate A'' t1 s]
                         (hash (genesis sample_lib 0)) 0)],
           pending_votes = [], spent_tokens = {|nf|}\<rparr>)"
proof -
  let ?b0 = "Block_init sample_lib 1 t2 [vote_record nf ''Candidate A'' t1 s]
          (hash (genesis sample_lib 0)) 0"
  have "hash ?b0 = ''ff00000000000000000000000000000000000000000000000000000000000000''"
    by (simp add: compute_hash_def sample_lib_def) code_simp
  then have "\<not> pow_ok ?b0"
    by (simp add: pow_ok_iff)
  moreover have h1: "hash (next_nonce sample_lib ?b0)
       = ''0000000000000000000000000000000000000000000000000000000000000000''"
    by (simp add: compute_hash_def sample_lib_def) code_simp
  then have "pow_ok (next_nonce sample_lib ?b0)"
    by (simp add: pow_ok_iff del: next_nonce_fields)
  ultimately have pw: "proof_of_work sample_lib ?b0 = Some (next_nonce sample_lib ?b0)"
    by (subst proof_of_work.simps, simp, subst proof_of_work.simps, simp)
  have idx: "index (next_nonce sample_lib ?b0) = 1" by simp
  show ?thesis
    using pw h1 idx
    by (simp add: cast_vote_def load_or_init_def CANDIDATES_def Let_def del: next_nonce_fields)
qed


lemma api_vote_invalid:
  assumes "strip rt \<noteq> []" "strip rs \<noteq> []" "strip rc \<in> set CANDIDATES"
    "hex_to_token L (strip rt) = Some token" "b64_to_int L (strip rs) = Some sig_int"
    "get_public_key (app_registry st) = Inr pk" "verify_signature L token sig_int pk = Inr False"
  shows "api_vote L st rt rs rc t1 t2 = Some (Inr (403, VoteFailure InvalidCredential), st)"
proof -
  from assms(3) have "strip rc \<noteq> []" by (auto simp: CANDIDATES_def)
  with assms show ?thesis by (simp add: api_vote_def Let_def)
qed

lemma api_vote_success:
  assumes "api_vote L st rt rs rc t1 t2 = Some (Inr (code, VoteSuccess h i), st')"
  shows "\<exists>token sig_int pk.
           hex_to_token L (strip rt) = Some token \<and> b64_to_int L (strip rs) = Some sig_int
           \<and> get_public_key (app_registry st) = Inr pk
           \<and> verify_signature L token sig_int pk = Inr True
           \<and> cast_vote L (app_ledger st) (token_hash L token) (strip rc) (take 64 (strip rs)) t1 t2
                = Some (Inr (VoteSuccess h i), app_ledger st')
           \<and> app_registry st' = app_registry st \<and> code = 200"
  using assms
  by (auto simp: api_vote_def Let_def
      split: if_splits option.splits sum.splits bool.splits prod.splits vote_reply.splits)

lemma strip_plain [simp]:
  "strip ''ab'' = ''ab''" "strip ''AAAA'' = ''AAAA''" "strip '' Candidate A '' = ''Candidate A''"
  by (simp_all add: strip_def isspace_def)

lemma sample_forged:
  "verify_signature sample_lib (encode ''ab'') (from_bytes (encode ''AAAA'')) sample_public = Inr False"
  by code_simp


lemma sample_public_key: "get_public_key (app_registry sample_app) = Inr sample_public"
  by (simp add: sample_app_def sample_registry_eq get_public_key_def get_issuer_keys_def)

lemma sample_decoded:
  "hex_to_token sample_lib ''ab'' = Some (encode ''ab'')"
  "b64_to_int sample_lib ''AAAA'' = Some (from_bytes (encode ''AAAA''))"
  by (simp_all add: hex_to_token_def b64_to_int_def sample_lib_def)




subsection \<open>The character class of voter ids\<close>

lemma ascii_class:
  "of_char ch < (128::nat) \<Longrightarrow> (isalnum ch \<or> ch = CHR ''_'') \<longleftrightarrow> ch \<in> set word_chars"
proof (cases ch)
  case (Char b0 b1 b2 b3 b4 b5 b6 b7)
  assume "of_char ch < (128::nat)"
  with Char have b7: "\<not> b7" by (auto split: if_splits)
  show ?thesis
    unfolding Char isalnum_def word_chars_def Let_def
    using b7
    by (cases b0; cases b1; cases b2; cases b3; cases b4; cases b5; cases b6) simp_all
qed

lemma api_register_bad_char:
  assumes "\<not> list_all (\<lambda>ch. isalnum ch \<or> ch = CHR ''_'') (strip raw_id)"
  shows "api_register L db raw_id raw_b now =
           Inr ((400, IssueFailure (if strip raw_b = [] then MissingFields else InvalidVoterId)), db)"
proof -
  from assms have "strip raw_id \<noteq> []" by auto
  with assms show ?thesis by (simp add: api_register_def Let_def)
qed

lemma strip_hyphen [simp]: "strip ''a-b'' = ''a-b''" "strip ''x'' = ''x''"
  by (simp_all add: strip_def isspace_def)

lemma hyphen_not_alnum: "\<not> isalnum CHR ''-''" "CHR ''-'' \<notin> set word_chars"
  by (simp_all add: isalnum_def word_chars_def)

lemma hyphen_registry_eq:
  "hyphen_registry =
     \<lparr>eligible_voters = {|''a-b'', ''VOTER_00001'', ''V2''|}, voters = Map.empty,
      issuer_keys = Some (sample_private, sample_public)\<rparr>"
  by (auto simp: hyphen_registry_def sample_registry_eq seed_eligible_voters_def)

lemma latin1_letter_is_alnum: "isalnum (char_of (233::nat))"
  by (simp add: isalnum_def)




subsection \<open>One token per voter\<close>

lemma bit_length_nat_bound: "k < 2 ^ bit_length_nat k"
proof (induction k rule: bit_length_nat.induct)
  case (1 k)
  show ?case
  proof (cases "k = 0")
    case True
    then show ?thesis by (subst bit_length_nat.simps) simp
  next
    case False
    from 1 [OF False] have "k div 2 < 2 ^ bit_length_nat (k div 2)" .
    then have "k < 2 * 2 ^ bit_length_nat (k div 2)" by linarith
    with False show ?thesis by (subst bit_length_nat.simps) simp
  qed
qed

lemma fits_in_bytes:
  assumes "0 \<le> x"
  shows "x < 256 ^ ((bit_length x + 7) div 8)"
proof -
  let ?l = "bit_length x"
  have "nat x < 2 ^ ?l" using assms bit_length_nat_bound [of "nat x"] by (simp add: bit_length_def)
  also have "(2::nat) ^ ?l \<le> 2 ^ (8 * ((?l + 7) div 8))"
    by (rule power_increasing) simp_all
  also have "(2::nat) ^ (8 * ((?l + 7) div 8)) = 256 ^ ((?l + 7) div 8)"
    by (simp add: power_mult)
  finally have "nat x < 256 ^ ((?l + 7) div 8)" .
  then have "int (nat x) < int (256 ^ ((?l + 7) div 8))" by (rule iffD2 [OF of_nat_less_iff])
  with assms show ?thesis by simp
qed

lemma to_bytes_minimal:
  "0 \<le> x \<Longrightarrow> \<exists>bs. to_bytes x ((bit_length x + 7) div 8) = Inr bs"
  using fits_in_bytes [of x] by (simp add: to_bytes_def)

lemma blind_sign_ok:
  assumes "0 < priv_n priv" "0 \<le> priv_d priv"
  shows "\<exists>s. blind_sign bs priv = Inr s \<and> 0 \<le> s \<and> s < priv_n priv"
  using assms by (simp add: blind_sign_def py_pow3_def)

lemma issue_first:
  assumes "is_eligible db v" "\<not> has_token_issued db v" "keys_ok db" "b64decode L b = Some bytes"
  shows "\<exists>sig. issue_blind_token L db v b now = Inr (IssueSuccess sig, register_voter db v now)"
proof -
  from assms(3) obtain priv pub where k: "get_issuer_keys db = Some (priv, pub)"
    "0 < priv_n priv" "0 \<le> priv_d priv"
    by (auto simp: keys_ok_def split: option.splits)
  from blind_sign_ok [OF k(2,3)] obtain s where s: "blind_sign bytes priv = Inr s" "0 \<le> s" by blast
  from to_bytes_minimal [OF s(2)] obtain bs where "to_bytes s ((bit_length s + 7) div 8) = Inr bs" ..
  then have "int_to_b64 L s = Inr (b64encode L bs)" by (simp add: int_to_b64_def)
  with assms k s show ?thesis by (simp add: issue_blind_token_def)
qed

lemma register_voter_issued: "has_token_issued (register_voter db v now) v"
  by (auto simp: register_voter_def has_token_issued_def split: option.splits)

lemma register_voter_eligible [simp]: "is_eligible (register_voter db v now) u = is_eligible db u"
  by (auto simp: register_voter_def is_eligible_def split: option.splits)

lemma register_voter_mono: "has_token_issued db u \<Longrightarrow> has_token_issued (register_voter db v now) u"
  by (auto simp: register_voter_def has_token_issued_def split: option.splits)

lemma issue_blind_token_db:
  "issue_blind_token L db v b now = Inr (reply, db') \<Longrightarrow> db' = db \<or> db' = register_voter db v now"
  by (auto simp: issue_blind_token_def split: if_splits option.splits sum.splits prod.splits)

lemma apply_op_mono:
  "has_token_issued db u \<Longrightarrow> has_token_issued (apply_op L db op) u"
proof (cases op)
  case (IssueToken v b now)
  assume u: "has_token_issued db u"
  show ?thesis
  proof (cases "issue_blind_token L db v b now")
    case (Inl e)
    with IssueToken u show ?thesis by simp
  next
    case (Inr p)
    obtain reply db' where p: "p = (reply, db')" by (cases p)
    from issue_blind_token_db [of L db v b now reply db'] Inr p
    have "db' = db \<or> db' = register_voter db v now" by simp
    with IssueToken Inr p u register_voter_mono show ?thesis by auto
  qed
qed (auto simp: seed_eligible_voters_def has_token_issued_def store_issuer_keys_def bootstrap_def
      register_voter_mono [unfolded has_token_issued_def] Let_def get_issuer_keys_def
      split: option.splits prod.splits)

lemma apply_op_eligible:
  "is_eligible db u \<Longrightarrow> is_eligible (apply_op L db op) u"
proof (cases op)
  case (IssueToken v b now)
  assume u: "is_eligible db u"
  show ?thesis
  proof (cases "issue_blind_token L db v b now")
    case (Inl e)
    with IssueToken u show ?thesis by simp
  next
    case (Inr p)
    obtain reply db' where p: "p = (reply, db')" by (cases p)
    from issue_blind_token_db [of L db v b now reply db'] Inr p
    have "db' = db \<or> db' = register_voter db v now" by simp
    with IssueToken Inr p u show ?thesis by auto
  qed
qed (auto simp: seed_eligible_voters_def is_eligible_def store_issuer_keys_def bootstrap_def
      Let_def get_issuer_keys_def register_voter_def split: option.splits prod.splits)

lemma apply_ops_mono:
  "has_token_issued db u \<Longrightarrow> has_token_issued (apply_ops L db ops) u"
  unfolding apply_ops_def by (induction ops arbitrary: db) (simp_all add: apply_op_mono)

lemma apply_ops_eligible:
  "is_eligible db u \<Longrightarrow> is_eligible (apply_ops L db ops) u"
  unfolding apply_ops_def by (induction ops arbitrary: db) (simp_all add: apply_op_eligible)

lemma issue_again:
  "is_eligible db v \<Longrightarrow> has_token_issued db v \<Longrightarrow>
     issue_blind_token L db v b now = Inr (IssueFailure AlreadyIssued, db)"
  by (simp add: issue_blind_token_def)


lemma bootstrap_fresh:
  assumes "0 < priv_n (fst kp)" "0 \<le> priv_d (fst kp)" "v \<in> set ids"
  shows "keys_ok (snd (bootstrap init_db kp ids))"
    "is_eligible (snd (bootstrap init_db kp ids)) v"
    "\<not> has_token_issued (snd (bootstrap init_db kp ids)) v"
proof -
  from assms(3) have ne: "ids \<noteq> []" by auto
  have db: "snd (bootstrap init_db kp ids) =
     \<lparr>eligible_voters = fset_of_list ids, voters = Map.empty, issuer_keys = Some (fst kp, snd kp)\<rparr>"
    using ne
    by (simp add: bootstrap_def init_db_def get_issuer_keys_def store_issuer_keys_def
        seed_eligible_voters_def)
  show "keys_ok (snd (bootstrap init_db kp ids))"
    using assms(1,2) by (auto simp: db keys_ok_def get_issuer_keys_def)
  show "is_eligible (snd (bootstrap init_db kp ids)) v"
    using assms(3) by (simp add: db is_eligible_def fset_of_list.rep_eq)
  show "\<not> has_token_issued (snd (bootstrap init_db kp ids)) v"
    by (simp add: db has_token_issued_def)
qed



subsection \<open>The blind-signature law\<close>


subsection \<open>Fermat's little theorem and the RSA identity\<close>

lemma is_prime_divisors:
  assumes "is_prime p" "k dvd p"
  shows "k = 1 \<or> k = p"
proof (rule ccontr)
  assume n: "\<not> (k = 1 \<or> k = p)"
  from assms(1) have p: "1 < p" by (simp add: is_prime_def)
  from assms(2) p have "k \<le> p" by (intro dvd_imp_le) simp_all
  moreover from assms(2) p have "k \<noteq> 0" by (intro notI) simp
  ultimately have "k \<in> set [2..<p]" using n by simp
  with assms(1) have "\<not> k dvd p" by (simp add: is_prime_def list_all_iff)
  with assms(2) show False by simp
qed

lemma is_prime_coprime:
  assumes "is_prime p" "\<not> p dvd a"
  shows "coprime p a"
proof (rule coprimeI)
  fix c assume c: "c dvd p" "c dvd a"
  from is_prime_divisors [OF assms(1) c(1)] show "is_unit c"
    using assms(2) c(2) by auto
qed

lemma is_prime_dvd_choose:
  assumes "is_prime p" "0 < k" "k < p"
  shows "p dvd (p choose k)"
proof -
  have "\<not> p dvd k" using assms(2,3) by (auto dest: dvd_imp_le)
  with assms(1) have cp: "coprime p k" by (rule is_prime_coprime)
  have "k * (p choose k) = p * ((p - 1) choose (k - 1))"
    using assms(2) by (rule times_binomial_minus1_eq)
  then have "p dvd k * (p choose k)" by simp
  with cp show ?thesis by (simp add: coprime_dvd_mult_right_iff)
qed

lemma fermat_nat:
  assumes "is_prime p"
  shows "a ^ p mod p = a mod p"
proof (induction a)
  case 0
  from assms have "0 < p" by (simp add: is_prime_def)
  then show ?case by (simp add: power_0_left)
next
  case (Suc a)
  from assms have p: "1 < p" by (simp add: is_prime_def)
  have split: "{..p} = insert 0 (insert p {1..<p})" using p by auto
  have "(a + 1) ^ p = (\<Sum>k\<le>p. (p choose k) * a ^ k)"
    using binomial [of a 1 p] by simp
  also have "\<dots> = 1 + a ^ p + (\<Sum>k\<in>{1..<p}. (p choose k) * a ^ k)"
    unfolding split using p by simp
  finally have eq: "(a + 1) ^ p = 1 + a ^ p + (\<Sum>k\<in>{1..<p}. (p choose k) * a ^ k)" .
  have "p dvd (\<Sum>k\<in>{1..<p}. (p choose k) * a ^ k)"
    by (intro dvd_sum dvd_mult2 is_prime_dvd_choose assms) auto
  then obtain m where "(\<Sum>k\<in>{1..<p}. (p choose k) * a ^ k) = p * m" ..
  then have "(a + 1) ^ p mod p = (1 + a ^ p) mod p"
    unfolding eq by simp
  also have "\<dots> = (1 + a ^ p mod p) mod p" by (rule mod_add_right_eq [symmetric])
  also have "\<dots> = (1 + a mod p) mod p" by (simp only: Suc.IH)
  also have "\<dots> = (1 + a) mod p" by (rule mod_add_right_eq)
  finally show ?case by simp
qed


lemma fermat_int:
  assumes "is_prime p" "0 \<le> a"
  shows "int p dvd a ^ p - a"
proof -
  from assms(2) obtain m where a: "a = int m" by (metis nonneg_int_cases)
  have "int (m ^ p mod p) = int (m mod p)" using fermat_nat [OF assms(1), of m] by simp
  then have "(int m) ^ p mod int p = int m mod int p" by (simp add: of_nat_mod)
  then show ?thesis unfolding a by (simp add: mod_eq_dvd_iff)
qed

lemma fermat_unit:
  assumes "is_prime p" "0 \<le> a" "\<not> int p dvd a"
  shows "int p dvd a ^ (p - 1) - 1"
proof -
  from assms(1) have p: "1 < p" by (simp add: is_prime_def)
  from assms(2) obtain m where a: "a = int m" by (metis nonneg_int_cases)
  from assms(3) have "\<not> p dvd m" unfolding a by simp
  with assms(1) have "coprime p m" by (rule is_prime_coprime)
  then have cp: "coprime (int p) a" unfolding a by simp
  have "a ^ p = a * a ^ (p - 1)" using p by (simp add: power_eq_if)
  then have "a ^ p - a = a * (a ^ (p - 1) - 1)" by (simp add: algebra_simps)
  with fermat_int [OF assms(1,2)] have "int p dvd a * (a ^ (p - 1) - 1)" by simp
  with cp show ?thesis by (simp add: coprime_dvd_mult_right_iff)
qed

lemma power_minus_one_dvd:
  fixes x c :: int
  assumes "c dvd x - 1"
  shows "c dvd x ^ k - 1"
proof (induction k)
  case 0
  show ?case by simp
next
  case (Suc k)
  have eq: "x ^ Suc k - 1 = x * (x ^ k - 1) + (x - 1)" by (simp add: algebra_simps)
  have "c dvd x * (x ^ k - 1) + (x - 1)"
    using Suc assms by (intro dvd_add dvd_mult) 
  then show ?case by (simp only: eq)
qed

lemma rsa_mod_prime:
  assumes "is_prime p" "0 \<le> a" "1 \<le> t" "(p - 1) dvd (t - 1)"
  shows "int p dvd a ^ t - a"
proof (cases "int p dvd a")
  case True
  from assms(3) have "a ^ t = a * a ^ (t - 1)" by (simp add: power_eq_if)
  with True show ?thesis by simp
next
  case False
  from assms(4) obtain k where k: "t - 1 = (p - 1) * k" ..
  with assms(3) have t: "t = Suc ((p - 1) * k)" by simp
  have "int p dvd (a ^ (p - 1)) ^ k - 1"
    by (rule power_minus_one_dvd) (rule fermat_unit [OF assms(1,2) False])
  then have "int p dvd a * (a ^ ((p - 1) * k) - 1)" by (simp add: power_mult)
  moreover have "a ^ t - a = a * (a ^ ((p - 1) * k) - 1)" unfolding t by (simp add: algebra_simps)
  ultimately show ?thesis by simp
qed

lemma distinct_primes_coprime:
  assumes "is_prime p" "is_prime q" "p \<noteq> q"
  shows "coprime p q"
proof -
  from assms(1) have "1 < p" by (simp add: is_prime_def)
  with is_prime_divisors [OF assms(2), of p] assms(3) have "\<not> p dvd q" by auto
  with assms(1) show ?thesis by (rule is_prime_coprime)
qed

lemma rsa_core:
  assumes "is_prime p" "is_prime q" "p \<noteq> q" "0 \<le> a" "1 \<le> t"
    "(p - 1) dvd (t - 1)" "(q - 1) dvd (t - 1)"
  shows "a ^ t mod int (p * q) = a mod int (p * q)"
proof -
  have "int p dvd a ^ t - a" by (rule rsa_mod_prime [OF assms(1,4,5,6)])
  moreover have "int q dvd a ^ t - a" by (rule rsa_mod_prime [OF assms(2,4,5,7)])
  moreover have "coprime (int p) (int q)"
    using distinct_primes_coprime [OF assms(1,2,3)] by simp
  ultimately have "int p * int q dvd a ^ t - a" by (rule divides_mult)
  then show ?thesis by (simp add: mod_eq_dvd_iff)
qed

subsection \<open>Bytes and integers\<close>

lemma from_bytes_snoc: "from_bytes (bs @ [b]) = from_bytes bs * 256 + uint b"
  by (simp add: from_bytes_def)

lemma from_bytes_digits:
  "0 \<le> x \<Longrightarrow>
     from_bytes (map (\<lambda>i. word_of_int (x div 256 ^ (k - 1 - i))) [0..<k]) = x mod 256 ^ k"
proof (induction k arbitrary: x)
  case 0
  show ?case by (simp add: from_bytes_def)
next
  case (Suc k)
  have shift: "map (\<lambda>i. (word_of_int (x div 256 ^ (k - i)) :: byte)) [0..<k]
        = map (\<lambda>i. word_of_int (x div 256 div 256 ^ (k - Suc i))) [0..<k]"
  proof (rule map_cong [OF refl])
    fix i assume "i \<in> set [0..<k]"
    then have i: "i < k" by simp
    then have "k - i = Suc (k - Suc i)" by simp
    then have "x div 256 ^ (k - i) = x div (256 * 256 ^ (k - Suc i))" by simp
    also have "\<dots> = (x div 256) div 256 ^ (k - Suc i)"
      by (simp add: zdiv_zmult2_eq)
    finally show "(word_of_int (x div 256 ^ (k - i)) :: byte)
        = word_of_int (x div 256 div 256 ^ (k - Suc i))" by simp
  qed
  from Suc.prems have d: "0 \<le> x div 256" by simp
  have "from_bytes (map (\<lambda>i. word_of_int (x div 256 ^ (Suc k - 1 - i))) [0..<Suc k])
        = from_bytes (map (\<lambda>i. word_of_int ((x div 256) div 256 ^ (k - 1 - i))) [0..<k]) * 256
          + uint (word_of_int x :: byte)"
    by (simp add: from_bytes_snoc shift)
  also have "\<dots> = ((x div 256) mod 256 ^ k) * 256 + x mod 256"
    using Suc.IH [OF d] by (simp add: uint_word_of_int take_bit_eq_mod)
  also have "\<dots> = x mod 256 ^ Suc k"
    by (simp add: zmod_zmult2_eq)
  finally show ?case .
qed

lemma from_bytes_to_bytes:
  "to_bytes x k = Inr bs \<Longrightarrow> from_bytes bs = x"
  using from_bytes_digits [of x k] by (auto simp: to_bytes_def split: if_splits)

subsection \<open>The blind-signature law for coprime blinding factors\<close>

lemma modinv_coprime:
  assumes "coprime r n" "1 < n"
  shows "\<exists>x. modinv r n = Some x \<and> 0 \<le> x \<and> x < n \<and> (r * x) mod n = 1"
proof -
  from assms(1) have "gcd r n = 1" by simp
  with bezout_int [of r n] obtain u v where "u * r + v * n = 1" by auto
  then have "(r * u) mod n = 1 mod n"
    by (metis mod_mult_self2 mult.commute)
  then have "(r * (u mod n)) mod n = 1 mod n" by (simp add: mod_mult_right_eq)
  moreover have "u mod n \<in> set [0..\<bar>n\<bar> - 1]" using assms(2) by simp
  ultimately have "\<exists>x \<in> set [0..\<bar>n\<bar> - 1]. (r * x) mod \<bar>n\<bar> = 1 mod \<bar>n\<bar>"
    using assms(2) by (intro bexI [of _ "u mod n"]) simp_all
  then obtain x where "modinv r n = Some x"
    unfolding modinv_def by (cases "find (\<lambda>x. (r * x) mod \<bar>n\<bar> = 1 mod \<bar>n\<bar>) [0..\<bar>n\<bar> - 1]")
      (auto simp: find_None_iff)
  moreover from this have "x \<in> set [0..\<bar>n\<bar> - 1] \<and> (r * x) mod \<bar>n\<bar> = 1 mod \<bar>n\<bar>"
    unfolding modinv_def by (auto simp: find_Some_iff)
  ultimately show ?thesis using assms(2) by auto
qed

lemma choose_r_accepts:
  "choose_r n draws = Some r \<Longrightarrow> n \<noteq> 0 \<Longrightarrow> 1 < r \<and> (\<exists>x \<in> set draws. r = from_bytes x mod n)"
  by (induction draws) (auto simp: Let_def split: if_splits)


lemma rsa_keypair_power:
  assumes "rsa_keypair p q priv pub" "0 \<le> a"
  shows "a ^ (nat (priv_d priv) * nat (pub_e pub)) mod pub_n pub = a mod pub_n pub"
proof -
  let ?e = "pub_e pub" and ?d = "priv_d priv"
  let ?t = "nat ?d * nat ?e"
  from assms(1) have pr: "is_prime p" "is_prime q" "p \<noteq> q" and n: "pub_n pub = int (p * q)"
    and e: "0 < ?e" and d: "0 < ?d"
    and l: "int (lcm (p - 1) (q - 1)) dvd ?e * ?d - 1"
    by (simp_all add: rsa_keypair_def)
  from e d have t1: "1 \<le> ?t" by (simp add: Suc_le_eq)
  have "int ?t = ?e * ?d" using e d by simp
  with t1 have "int (?t - 1) = ?e * ?d - 1" by (simp add: of_nat_diff)
  with l have "int (lcm (p - 1) (q - 1)) dvd int (?t - 1)" by simp
  then have ldvd: "lcm (p - 1) (q - 1) dvd ?t - 1" by (simp only: of_nat_dvd_iff)
  have "(p - 1) dvd ?t - 1" by (rule dvd_trans [OF dvd_lcm1 ldvd])
  moreover have "(q - 1) dvd ?t - 1" by (rule dvd_trans [OF dvd_lcm2 ldvd])
  ultimately show ?thesis
    unfolding n using rsa_core [OF pr assms(2) t1] by blast
qed

lemma rsa_keypair_modulus:
  assumes "rsa_keypair p q priv pub"
  shows "1 < pub_n pub" "priv_n priv = pub_n pub"
proof -
  from assms have "1 < p" "1 < q" and n: "pub_n pub = int (p * q)" "priv_n priv = int (p * q)"
    by (simp_all add: rsa_keypair_def is_prime_def)
  then have "1 * 1 < p * q" by (intro mult_strict_mono) simp_all
  then have "1 < p * q" by simp
  then have "int 1 < int (p * q)" by (simp only: of_nat_less_iff)
  with n show "1 < pub_n pub" "priv_n priv = pub_n pub" by simp_all
qed

lemma blind_algebra:
  fixes n m r x bl :: int
  assumes n: "1 < n" and m: "0 \<le> m" "m < n" and inv: "(r * x) mod n = 1"
    and rsa: "bl ^ (D * E) mod n = bl mod n"
    and bl: "bl = (m * (r ^ E mod n)) mod n"
  shows "((bl ^ D mod n) * (x mod n) mod n) ^ E mod n = m"
proof -
  define s where "s = bl ^ D mod n"
  have "(s * (x mod n) mod n) ^ E mod n = (s * (x mod n)) ^ E mod n"
    by (rule power_mod)
  also have "\<dots> = (s ^ E * (x mod n) ^ E) mod n"
    by (simp only: power_mult_distrib)
  also have "\<dots> = ((s ^ E mod n) * ((x mod n) ^ E mod n)) mod n"
    by (rule mod_mult_eq [symmetric])
  also have "s ^ E mod n = bl ^ (D * E) mod n"
    unfolding s_def by (simp only: power_mod power_mult)
  also have "\<dots> = bl mod n" by (rule rsa)
  also have "bl mod n = (m * r ^ E) mod n"
    unfolding bl by (simp only: mod_mod_trivial mod_mult_right_eq)
  also have "(x mod n) ^ E mod n = x ^ E mod n" by (rule power_mod)
  also have "((m * r ^ E) mod n * (x ^ E mod n)) mod n = (m * r ^ E * x ^ E) mod n"
    by (rule mod_mult_eq)
  also have "m * r ^ E * x ^ E = m * (r * x) ^ E"
    by (simp only: power_mult_distrib mult.assoc)
  also have "(m * (r * x) ^ E) mod n = (m * ((r * x) ^ E mod n)) mod n"
    by (rule mod_mult_right_eq [symmetric])
  also have "(r * x) ^ E mod n = ((r * x) mod n) ^ E mod n"
    by (rule power_mod [symmetric])
  also have "\<dots> = 1" unfolding inv using n by simp
  also have "(m * 1) mod n = m" using m by simp
  finally show ?thesis unfolding s_def .
qed

lemma blind_signature_verifies:
  assumes kp: "rsa_keypair p q priv pub"
    and bl: "blind_token L token pub draws = Some (Inr (bb, r))"
    and cp: "coprime r (pub_n pub)"
  shows "\<exists>s sg. blind_sign bb priv = Inr s \<and> unblind_signature s r pub = Inr sg
           \<and> verify_signature L token sg pub = Inr True"
proof -
  let ?n = "pub_n pub" and ?E = "nat (pub_e pub)" and ?D = "nat (priv_d priv)"
  let ?m = "from_bytes (sha256 L token) mod ?n"
  let ?bl = "(?m * (r ^ ?E mod ?n)) mod ?n"
  from rsa_keypair_modulus [OF kp] have n1: "1 < ?n" and pn: "priv_n priv = ?n" .
  from kp have e: "0 < pub_e pub" and d: "0 < priv_d priv" by (simp_all add: rsa_keypair_def)
  from n1 have n0: "?n \<noteq> 0" by simp
  have m: "0 \<le> ?m" "?m < ?n" using n1 by simp_all
  from bl n0 e have tb: "to_bytes ?bl ((bit_length ?bl + 7) div 8) = Inr bb"
    by (auto simp: blind_token_def Let_def py_mod_def py_pow3_def
        split: option.splits sum.splits if_splits)
  from from_bytes_to_bytes [OF tb] have fb: "from_bytes bb = ?bl" .
  have bl0: "0 \<le> ?bl" using n1 by simp
  let ?s = "?bl ^ ?D mod ?n"
  have sign: "blind_sign bb priv = Inr ?s"
    using n0 d by (simp add: blind_sign_def py_pow3_def pn fb)
  from modinv_coprime [OF cp n1] obtain x where
    x: "modinv r ?n = Some x" "0 \<le> x" "x < ?n" "(r * x) mod ?n = 1" by blast
  let ?sg = "(?s * (x mod ?n)) mod ?n"
  have unbl: "unblind_signature ?s r pub = Inr ?sg"
    using n0 x(1) by (simp add: unblind_signature_def py_pow3_def py_mod_def Let_def)
  have rec: "?sg ^ ?E mod ?n = ?m"
    by (rule blind_algebra [OF n1 m x(4) rsa_keypair_power [OF kp bl0] refl])
  have "verify_signature L token ?sg pub = Inr True"
    using n0 e rec by (simp add: verify_signature_def Let_def py_mod_def py_pow3_def)
  with sign unbl show ?thesis by blast
qed


lemma blind_token_returns:
  assumes kp: "rsa_keypair p q priv pub"
    and dr: "\<exists>x\<in>set draws. 1 < from_bytes x mod pub_n pub"
  shows "\<exists>bb r. blind_token L token pub draws = Some (Inr (bb, r))"
proof -
  let ?n = "pub_n pub"
  from rsa_keypair_modulus [OF kp] have n1: "1 < ?n" by simp
  from kp have e: "0 < pub_e pub" by (simp add: rsa_keypair_def)
  have "\<exists>r. choose_r ?n draws = Some r" using dr
  proof (induction draws)
    case Nil
    then show ?case by simp
  next
    case (Cons x draws)
    show ?case
    proof (cases "1 < from_bytes x mod ?n")
      case True
      then show ?thesis using n1 by (simp add: Let_def py_pow3_def)
    next
      case False
      with Cons.prems have "\<exists>x\<in>set draws. 1 < from_bytes x mod ?n" by simp
      from Cons.IH [OF this] obtain r where "choose_r ?n draws = Some r" ..
      then show ?thesis by (simp add: Let_def)
    qed
  qed
  then obtain r where r: "choose_r ?n draws = Some r" ..
  let ?bl = "(from_bytes (sha256 L token) mod ?n * (r ^ nat (pub_e pub) mod ?n)) mod ?n"
  have "0 \<le> ?bl" using n1 by simp
  from to_bytes_minimal [OF this] obtain bs where
    "to_bytes ?bl ((bit_length ?bl + 7) div 8) = Inr bs" ..
  with r n1 e show ?thesis
    by (simp add: blind_token_def Let_def py_mod_def py_pow3_def)
qed

lemma sample_keypair: "rsa_keypair 3 11 sample_private sample_public"
proof -
  have "is_prime 3" "is_prime 11" by code_simp+
  moreover have "lcm (3 - 1) (11 - 1) = (10::nat)" by code_simp
  ultimately show ?thesis
    by (simp add: rsa_keypair_def sample_private_def sample_public_def)
qed

text \<open>
  For an RSA key pair, \<^verbatim>\<open>blind_token\<close> returns as soon as one of the random draws gives
  an \<open>r > 1\<close>; when the \<open>r\<close> it returns is coprime to the modulus, signing the blinded
  token, unblinding and verifying against the token all succeed and the verification
  returns true; and for an \<open>r\<close> that is not coprime to the modulus,
  \<^verbatim>\<open>unblind_signature\<close> raises \<^verbatim>\<open>ValueError\<close> whatever the blind signature is.
\<close>

theorem blind_signature_law:
  "(rsa_keypair p q priv pub \<and> (\<exists>x\<in>set draws. 1 < from_bytes x mod pub_n pub) \<longrightarrow>
      (\<exists>bb r. blind_token L token pub draws = Some (Inr (bb, r))))
   \<and> (rsa_keypair p q priv pub \<and> blind_token L token pub draws = Some (Inr (bb, r))
        \<and> coprime r (pub_n pub) \<longrightarrow>
      (\<exists>s sg. blind_sign bb priv = Inr s \<and> unblind_signature s r pub = Inr sg
          \<and> verify_signature L token sg pub = Inr True))
   \<and> (\<not> coprime r (pub_n pub) \<and> pub_n pub \<noteq> 0 \<longrightarrow> unblind_signature s' r pub = Inl ValueError)"
proof (intro conjI impI)
  assume "rsa_keypair p q priv pub \<and> (\<exists>x\<in>set draws. 1 < from_bytes x mod pub_n pub)"
  then show "\<exists>bb r. blind_token L token pub draws = Some (Inr (bb, r))"
    using blind_token_returns by blast
next
  assume "rsa_keypair p q priv pub \<and> blind_token L token pub draws = Some (Inr (bb, r))
        \<and> coprime r (pub_n pub)"
  then show "\<exists>s sg. blind_sign bb priv = Inr s \<and> unblind_signature s r pub = Inr sg
          \<and> verify_signature L token sg pub = Inr True"
    using blind_signature_verifies by blast
next
  assume a: "\<not> coprime r (pub_n pub) \<and> pub_n pub \<noteq> 0"
  have "modinv r (pub_n pub) = None"
  proof (rule ccontr)
    assume "modinv r (pub_n pub) \<noteq> None"
    then obtain x where "modinv r (pub_n pub) = Some x" by auto
    then have x: "(r * x) mod \<bar>pub_n pub\<bar> = 1 mod \<bar>pub_n pub\<bar>"
      unfolding modinv_def by (auto simp: find_Some_iff)
    have "coprime r \<bar>pub_n pub\<bar>"
    proof (rule coprimeI)
      fix c assume c: "c dvd r" "c dvd \<bar>pub_n pub\<bar>"
      from x have "\<bar>pub_n pub\<bar> dvd r * x - 1" by (simp add: mod_eq_dvd_iff)
      with c(2) have "c dvd r * x - 1" by (rule dvd_trans)
      moreover from c(1) have "c dvd r * x" by simp
      ultimately have "c dvd r * x - (r * x - 1)" by (rule dvd_diff [rotated])
      then show "is_unit c" by simp
    qed
    with a show False by simp
  qed
  with a show "unblind_signature s' r pub = Inl ValueError"
    by (simp add: unblind_signature_def py_pow3_def)
qed

text \<open>On the sample key: the draw \<open>r = 5\<close> gives a credential that verifies, \<open>r = 3\<close> does not unblind.\<close>

theorem blind_signature_law_witness:
  "rsa_keypair 3 11 sample_private sample_public
   \<and> blind_token sample_lib [] sample_public [replicate 255 0 @ [5]] = Some (Inr ([24], 5))
   \<and> coprime (5::int) (pub_n sample_public)
   \<and> blind_sign [24] sample_private = Inr 18
   \<and> unblind_signature 18 5 sample_public = Inr 30
   \<and> verify_signature sample_lib [] 30 sample_public = Inr True
   \<and> \<not> coprime (3::int) (pub_n sample_public)
   \<and> unblind_signature 24 3 sample_public = Inl ValueError"
proof -
  have bt: "blind_token sample_lib [] sample_public [replicate 255 0 @ [5]] = Some (Inr ([24], 5))"
    by code_simp
  have cp: "coprime (5::int) (pub_n sample_public)" "\<not> coprime (3::int) (pub_n sample_public)"
    by (simp_all add: sample_public_def coprime_iff_gcd_eq_1 del: coprime_iff_gcd_eq_1) code_simp+
  have ev: "blind_sign [24] sample_private = Inr 18" "unblind_signature 18 5 sample_public = Inr 30"
    "verify_signature sample_lib [] 30 sample_public = Inr True"
    by code_simp+
  have n: "pub_n sample_public \<noteq> 0" by (simp add: sample_public_def)
  show ?thesis
    using blind_signature_law [of 3 11 sample_private sample_public "[replicate 255 0 @ [5]]"
        sample_lib "[]" "[24]" 5 24]
      blind_signature_law [of 3 11 sample_private sample_public "[replicate 255 0 @ [5]]"
        sample_lib "[]" "[24]" 3 24]
      sample_keypair bt cp ev n
    by simp
qed

end
